theory Spec2Isabelle
  imports Main "HOL-Library.Sublist" "HOL-Library.Char_ord" "HOL-Library.Multiset"
begin

section \<open>JavaScript string primitives used by react-doc-gen\<close>

text \<open>
  A JavaScript string is a sequence of code units; it is modelled as a \<^typ>\<open>string\<close>
  (a list of characters, code units below 256). Indices are natural numbers, and the
  result \<open>-1\<close> of a failed search is \<open>None\<close>.
\<close>

abbreviation NL :: char where
  "NL \<equiv> CHR 0x0A"

text \<open>The white space and line terminators that \<open>String.prototype.trim\<close> strips.\<close>

definition isWhiteSpace :: "char \<Rightarrow> bool" where
  "isWhiteSpace c =
     (c = CHR 0x09 \<or> c = CHR 0x0A \<or> c = CHR 0x0B \<or> c = CHR 0x0C \<or> c = CHR 0x0D \<or>
      c = CHR 0x20 \<or> c = CHR 0xA0)"

definition trimStart :: "string \<Rightarrow> string" where
  "trimStart s = dropWhile isWhiteSpace s"

definition trimEnd :: "string \<Rightarrow> string" where
  "trimEnd s = rev (dropWhile isWhiteSpace (rev s))"

definition trim :: "string \<Rightarrow> string" where
  "trim s = trimEnd (trimStart s)"

definition startsWith :: "string \<Rightarrow> string \<Rightarrow> bool" where
  "startsWith s p = prefix p s"

definition endsWith :: "string \<Rightarrow> string \<Rightarrow> bool" where
  "endsWith s p = suffix p s"

text \<open>\<open>s.indexOf(pat)\<close>: the least index at which \<open>pat\<close> occurs in \<open>s\<close>.\<close>

fun indexOf :: "string \<Rightarrow> string \<Rightarrow> nat option" where
  "indexOf [] pat = (if pat = [] then Some 0 else None)"
| "indexOf (c # cs) pat =
     (if prefix pat (c # cs) then Some 0 else map_option Suc (indexOf cs pat))"

text \<open>
  \<open>s.lastIndexOf(pat, from)\<close>: the search starts at \<open>min from (length s - length pat)\<close>
  and walks down to index 0.
\<close>

fun lastIndexDown :: "string \<Rightarrow> string \<Rightarrow> nat \<Rightarrow> nat option" where
  "lastIndexDown s pat 0 = (if prefix pat s then Some 0 else None)"
| "lastIndexDown s pat (Suc i) =
     (if prefix pat (drop (Suc i) s) then Some (Suc i) else lastIndexDown s pat i)"

definition lastIndexOfFrom :: "string \<Rightarrow> string \<Rightarrow> nat \<Rightarrow> nat option" where
  "lastIndexOfFrom s pat from = lastIndexDown s pat (min from (length s - length pat))"

definition lastIndexOf :: "string \<Rightarrow> string \<Rightarrow> nat option" where
  "lastIndexOf s pat = lastIndexOfFrom s pat (length s)"

text \<open>\<open>s.substring(a, b)\<close> clamps both indices to the length and swaps them when \<open>a > b\<close>.\<close>

definition substring :: "string \<Rightarrow> nat \<Rightarrow> nat \<Rightarrow> string" where
  "substring s a b =
     (let a' = min a (length s); b' = min b (length s)
      in take (max a' b' - min a' b') (drop (min a' b') s))"

definition substringFrom :: "string \<Rightarrow> nat \<Rightarrow> string" where
  "substringFrom s a = drop a s"

text \<open>\<open>s.split(sep)\<close> for a one-character separator; the result is never empty.\<close>

fun split :: "string \<Rightarrow> char \<Rightarrow> string list" where
  "split [] sep = [[]]"
| "split (c # cs) sep =
     (if c = sep then [] # split cs sep
      else (case split cs sep of
              [] \<Rightarrow> [[c]]
            | l # ls \<Rightarrow> (c # l) # ls))"

text \<open>
  \<open>s.replace(/pat/g, "")\<close> for a literal, non-empty pattern: one pass from left to
  right; after a match the scan goes on behind the match, so the matches removed do
  not overlap and text joined by a removal is not scanned again.
\<close>

fun removeAll_str :: "string \<Rightarrow> string \<Rightarrow> string" where
  "removeAll_str pat [] = []"
| "removeAll_str pat (c # cs) =
     (if pat \<noteq> [] \<and> prefix pat (c # cs)
      then removeAll_str pat (drop (length pat - 1) cs)
      else c # removeAll_str pat cs)"


section \<open>docstring-generator.js: sanitizeDocString\<close>

text \<open>
  The first replacement of the source (of \<open>/**\<close>) is stored in \<open>sanitized\<close> and
  overwritten by the second one, which starts again from \<open>docString\<close>; the binding
  \<open>dead\<close> keeps it visible.
\<close>

definition sanitizeDocString :: "string \<Rightarrow> string" where
  "sanitizeDocString docString =
     (let dead = removeAll_str ''/**'' docString;
          sanitized = removeAll_str ''/*'' docString;
          sanitized = removeAll_str ''**/'' sanitized;
          sanitized = removeAll_str ''*/'' sanitized;
          sanitized =
            (if \<not> startsWith sanitized ''/**''
             then ''/**'' @ (if startsWith sanitized ''*'' then [] else ''\<newline> *'')
                    @ '' '' @ sanitized
             else sanitized);
          sanitized =
            (if \<not> endsWith sanitized ''*/'' then sanitized @ ''\<newline> */'' else sanitized)
      in sanitized)"


section \<open>utils/file-updater.js: the per-file patcher\<close>

text \<open>
  The objects the patcher reads. A component is the record \<open>addComponent\<close> of the
  extractor builds; a documentation result is one entry of the object that
  \<open>processBatch\<close> returns, keyed by \<open>uniqueId\<close>; \<open>docstring\<close> is \<open>null\<close> (\<open>None\<close>)
  for a skipped or failed generation.
\<close>

record location =
  line :: nat
  column :: nat

record component =
  name :: string
  uniqueId :: string
  "file" :: string
  filePath :: string
  code :: string
  location :: location
  startPos :: nat
  endPos :: nat
  existingComment :: "string option"
  commentStart :: "nat option"
  commentEnd :: "nat option"
  ctype :: string

record docStringResult =
  docstring :: "string option"
  doc_skipped :: bool
  doc_error :: "string option"

record options =
  isDryRun :: bool
  updateExisting :: bool

record position =
  start :: nat
  signatureStart :: nat
  signatureEnd :: nat

record existingDoc =
  ex_start :: nat
  ex_end :: nat
  ex_content :: string

text \<open>The local variables of the loop of \<open>updateFileWithDocStrings\<close>.\<close>

record loop_state =
  content :: string
  st_modified :: bool
  st_success :: nat
  st_failed :: nat
  st_skipped :: nat

text \<open>The object it returns; the dry-run result has no \<open>skipped\<close> key.\<close>

record update_result =
  success :: nat
  failed :: nat
  skipped :: "nat option"
  modified :: bool

text \<open>
  The file system: \<open>readFile\<close> rejects for a path that holds no file, \<open>writeFile\<close>
  for a path that is not writable.
\<close>

datatype io_error = ENOENT | EACCES

record file_system =
  files :: "string \<rightharpoonup> string"
  writable :: "string \<Rightarrow> bool"

definition readFile :: "file_system \<Rightarrow> string \<Rightarrow> io_error + string" where
  "readFile fs path = (case files fs path of None \<Rightarrow> Inl ENOENT | Some text \<Rightarrow> Inr text)"

definition writeFile :: "file_system \<Rightarrow> string \<Rightarrow> string \<Rightarrow> io_error + file_system" where
  "writeFile fs path text =
     (if writable fs path then Inr (fs\<lparr>files := (files fs)(path \<mapsto> text)\<rparr>) else Inl EACCES)"

definition getComponentSignature :: "component \<Rightarrow> string" where
  "getComponentSignature component = (let firstLine = trim (hd (split (code component) NL)) in firstLine)"

text \<open>\<open>lastNewline === -1 ? 0 : lastNewline + 1\<close>, as both functions below compute it.\<close>

definition afterLastNewline :: "string \<Rightarrow> nat" where
  "afterLastNewline before =
     (case lastIndexOf before [NL] of None \<Rightarrow> 0 | Some lastNewline \<Rightarrow> lastNewline + 1)"

definition findComponentPosition :: "string \<Rightarrow> component \<Rightarrow> position option" where
  "findComponentPosition text component =
     (let componentSignature = getComponentSignature component in
      case indexOf text componentSignature of
        None \<Rightarrow> None
      | Some signatureIndex \<Rightarrow>
          (let beforeSignature = substring text 0 signatureIndex;
               lineStart = afterLastNewline beforeSignature;
               lineContent = substring text lineStart signatureIndex;
               exportStart = (if startsWith (trim lineContent) ''export'' then lineStart else lineStart)
           in Some \<lparr>start = exportStart, signatureStart = signatureIndex,
                     signatureEnd = signatureIndex + length componentSignature\<rparr>))"

text \<open>
  \<open>findExistingDocString\<close> searches the trimmed text before the position, so the
  indices it returns count from the first character that is not white space. After
  the \<open>endsWith\<close> test \<open>lastIndexOf\<close> cannot fail; the branch for \<open>-1\<close> is what
  JavaScript would compute there (\<open>lastIndexOf('/**', -1)\<close> looks at index 0 only).
\<close>

definition findExistingDocString :: "string \<Rightarrow> nat \<Rightarrow> existingDoc option" where
  "findExistingDocString text pos =
     (let before = trim (substring text 0 pos) in
      if \<not> endsWith before ''*/'' then None
      else
        (case lastIndexOf before ''*/'' of
           None \<Rightarrow>
             (if startsWith before ''/**''
              then Some \<lparr>ex_start = 0, ex_end = 1, ex_content = substring before 0 1\<rparr>
              else None)
         | Some docEnd \<Rightarrow>
             (case lastIndexOfFrom before ''/**'' docEnd of
                None \<Rightarrow> None
              | Some docStart \<Rightarrow>
                  Some \<lparr>ex_start = docStart, ex_end = docEnd + 2,
                        ex_content = substring before docStart (docEnd + 2)\<rparr>)))"

text \<open>
  The test at the head of the loop body,
  \<open>!docStringResult || !docStringResult.docstring || docStringResult.skipped\<close>:
  \<open>Some doc\<close> when the component has a documentation result to apply. A result is
  unusable when it is missing, when its \<open>docstring\<close> is \<open>null\<close> or empty, or when it is
  marked skipped.
\<close>

definition usableDocString :: "(string \<rightharpoonup> docStringResult) \<Rightarrow> component \<Rightarrow> string option" where
  "usableDocString docStrings component =
     (case docStrings (uniqueId component) of
        None \<Rightarrow> None
      | Some docStringResult \<Rightarrow>
          (case docstring docStringResult of
             None \<Rightarrow> None
           | Some doc \<Rightarrow> if doc = [] \<or> doc_skipped docStringResult then None else Some doc))"

text \<open>
  One iteration of the loop over the sorted components. \<open>originalPosition\<close> is
  computed and never read. Nothing in the inner \<open>try\<close> block throws for a component
  whose \<open>code\<close> is a string, so its \<open>catch\<close> has no branch here.
\<close>

definition processComponent ::
  "options \<Rightarrow> (string \<rightharpoonup> docStringResult) \<Rightarrow> string \<Rightarrow> loop_state \<Rightarrow> component \<Rightarrow> loop_state" where
  "processComponent opts docStrings originalContent st component =
     (case usableDocString docStrings component of
        None \<Rightarrow> st\<lparr>st_skipped := st_skipped st + 1\<rparr>
      | Some doc \<Rightarrow>
          (let originalPosition = findComponentPosition originalContent component in
           case findComponentPosition (content st) component of
             None \<Rightarrow> st\<lparr>st_failed := st_failed st + 1\<rparr>
           | Some currentPosition \<Rightarrow>
               (case findExistingDocString (content st) (start currentPosition) of
                  Some existing \<Rightarrow>
                    if updateExisting opts
                    then st\<lparr>content :=
                               substring (content st) 0 (ex_start existing) @ doc @
                               substringFrom (content st) (ex_end existing),
                             st_modified := True,
                             st_success := st_success st + 1\<rparr>
                    else st\<lparr>st_skipped := st_skipped st + 1\<rparr>
                | None \<Rightarrow>
                    (let beforeComponent = substring (content st) 0 (start currentPosition);
                         insertPos = afterLastNewline beforeComponent
                     in st\<lparr>content :=
                                substring (content st) 0 insertPos @ doc @ [NL] @
                                substringFrom (content st) insertPos,
                              st_modified := True,
                              st_success := st_success st + 1\<rparr>))))"

text \<open>
  \<open>[...components].sort((a, b) => b.startPos - a.startPos)\<close>: a stable sort, by
  \<open>startPos\<close> descending.
\<close>

definition sortedComponents :: "component list \<Rightarrow> component list" where
  "sortedComponents components = sort_key (\<lambda>c. - int (startPos c)) components"

definition processComponents ::
  "options \<Rightarrow> (string \<rightharpoonup> docStringResult) \<Rightarrow> string \<Rightarrow> component list \<Rightarrow> loop_state" where
  "processComponents opts docStrings originalContent components =
     foldl (processComponent opts docStrings originalContent)
       \<lparr>content = originalContent, st_modified = False, st_success = 0, st_failed = 0,
        st_skipped = 0\<rparr>
       (sortedComponents components)"

definition updateFileWithDocStrings ::
  "file_system \<Rightarrow> string \<Rightarrow> component list \<Rightarrow> (string \<rightharpoonup> docStringResult) \<Rightarrow> options
     \<Rightarrow> update_result \<times> file_system" where
  "updateFileWithDocStrings fs path components docStrings opts =
     (if isDryRun opts
      then (\<lparr>success = length components, failed = 0, skipped = None, modified = False\<rparr>, fs)
      else
        (case readFile fs path of
           Inl err \<Rightarrow>
             (\<lparr>success = 0, failed = length components, skipped = Some 0, modified = False\<rparr>, fs)
         | Inr originalContent \<Rightarrow>
             (let st = processComponents opts docStrings originalContent components;
                  result = \<lparr>success = st_success st, failed = st_failed st,
                            skipped = Some (st_skipped st), modified = st_modified st\<rparr>
              in if st_modified st
                 then (case writeFile fs path (content st) of
                         Inl err \<Rightarrow>
                           (\<lparr>success = 0, failed = length components, skipped = Some 0,
                             modified = False\<rparr>, fs)
                       | Inr fs' \<Rightarrow> (result, fs'))
                 else (result, fs))))"


section \<open>extractor.js: the declaration locator\<close>

text \<open>
  The parser and the tree walker are Babel's. The parser is a parameter \<open>parse\<close> of
  the model (the \<open>try\<close> block of \<open>extractComponentsFromFile\<close>: a plugin list chosen
  from the file's extension, then \<open>babylon.parse\<close>), and a syntax tree is a value of
  \<open>node\<close>, which keeps the node types and the fields that the visitors read: the
  offsets \<open>start\<close> and \<open>end\<close> of the three declaration nodes, \<open>id\<close> (an identifier's
  name, or \<open>null\<close>) of a function or class declaration, \<open>superClass\<close>, \<open>id\<close> and
  \<open>init\<close> of a declarator, \<open>callee\<close>, \<open>object\<close> and \<open>property\<close>. A field that is
  \<open>null\<close> holds \<open>Null\<close>; every other node type is \<open>Other\<close> with its children.
\<close>

datatype node =
    Null
  | Identifier string
  | MemberExpression node node
  | CallExpression node "node list"
  | ArrowFunctionExpression "node list"
  | FunctionDeclaration nat nat "string option" "node list"
  | VariableDeclaration nat nat "node list"
  | VariableDeclarator node node
  | ClassDeclaration nat nat "string option" node "node list"
  | Other "node list"

datatype parse_error = SyntaxError

datatype extract_error = TypeError

record precedingComment =
  pc_comment :: string
  pc_start :: nat
  pc_end :: nat

definition getLineAndColumn :: "string \<Rightarrow> nat \<Rightarrow> location" where
  "getLineAndColumn text pos =
     (if pos = 0 then \<lparr>line = 1, column = 1\<rparr>
      else (let lines = split (take pos text) NL
            in \<lparr>line = length lines, column = length (last lines) + 1\<rparr>))"

definition findPrecedingComment :: "string \<Rightarrow> nat \<Rightarrow> precedingComment option" where
  "findPrecedingComment text componentStart =
     (let preComponent = substring text 0 componentStart in
      case lastIndexOf preComponent ''*/'' of
        None \<Rightarrow> None
      | Some commentEndIndex \<Rightarrow>
          (case lastIndexOfFrom preComponent ''/**'' commentEndIndex of
             None \<Rightarrow> None
           | Some commentStartIndex \<Rightarrow>
               (let betweenText = trim (substringFrom preComponent (commentEndIndex + 2)) in
                if betweenText \<noteq> [] then None
                else Some \<lparr>pc_comment = substring preComponent commentStartIndex (commentEndIndex + 2),
                           pc_start = commentStartIndex,
                           pc_end = commentEndIndex + 2\<rparr>)))"

text \<open>\<open>String(n)\<close> for a natural number, and \<open>replace(/[^a-zA-Z0-9]/g, '_')\<close>.\<close>

fun showNat :: "nat \<Rightarrow> string" where
  "showNat n =
     (if n < 10 then [char_of (48 + n)] else showNat (n div 10) @ [char_of (48 + n mod 10)])"

definition isAlphaNum :: "char \<Rightarrow> bool" where
  "isAlphaNum c =
     ((CHR ''a'' \<le> c \<and> c \<le> CHR ''z'') \<or> (CHR ''A'' \<le> c \<and> c \<le> CHR ''Z'') \<or>
      (CHR ''0'' \<le> c \<and> c \<le> CHR ''9''))"

definition sanitizePath :: "string \<Rightarrow> string" where
  "sanitizePath relativePath = map (\<lambda>c. if isAlphaNum c then c else CHR ''_'') relativePath"

text \<open>The closure \<open>addComponent\<close>, as the record it pushes.\<close>

definition addComponent ::
  "string \<Rightarrow> string \<Rightarrow> string \<Rightarrow> string \<Rightarrow> nat \<Rightarrow> nat \<Rightarrow> string \<Rightarrow> component" where
  "addComponent path fileContent relativePath nm startP endP ty =
     (let loc = getLineAndColumn fileContent startP;
          existing = findPrecedingComment fileContent startP;
          componentCode = substring fileContent startP endP;
          uid = nm @ ''_'' @ sanitizePath relativePath @ ''_'' @ showNat (line loc) @ ''_'' @
                showNat (column loc)
      in \<lparr>name = nm, uniqueId = uid, file = relativePath, filePath = path,
          code = componentCode, location = loc, startPos = startP, endPos = endP,
          existingComment = map_option pc_comment existing,
          commentStart = map_option pc_start existing,
          commentEnd = map_option pc_end existing,
          ctype = ty\<rparr>)"

text \<open>\<open>/^[A-Z]/.test(name)\<close>.\<close>

fun hasUpperInitial :: "string \<Rightarrow> bool" where
  "hasUpperInitial [] = False"
| "hasUpperInitial (c # cs) = (CHR ''A'' \<le> c \<and> c \<le> CHR ''Z'')"

text \<open>The property \<open>name\<close> of a node: defined for an identifier only.\<close>

fun nodeName :: "node \<Rightarrow> string option" where
  "nodeName (Identifier n) = Some n"
| "nodeName _ = None"

definition wrapperNames :: "string list" where
  "wrapperNames = [''styled'', ''memo'', ''forwardRef'']"

definition wrapperType :: "string \<Rightarrow> string" where
  "wrapperType n = (if n = ''styled'' then ''StyledComponent'' else ''HOCComponent'')"

text \<open>
  The classification of a declarator's initializer: \<open>Some type\<close> when \<open>isComponent\<close>
  is set.
\<close>

fun componentTypeOf :: "node \<Rightarrow> string option" where
  "componentTypeOf (ArrowFunctionExpression body) = Some ''ArrowFunctionComponent''"
| "componentTypeOf (CallExpression (Identifier n) args) =
     (if n \<in> set wrapperNames then Some (wrapperType n) else None)"
| "componentTypeOf (CallExpression (MemberExpression obj prop) args) =
     (case nodeName prop of
        None \<Rightarrow> None
      | Some n \<Rightarrow> if n \<in> set wrapperNames then Some (wrapperType n) else None)"
| "componentTypeOf _ = None"

text \<open>The test on \<open>superClass\<close> in the class visitor.\<close>

fun isBaseComponent :: "node \<Rightarrow> bool" where
  "isBaseComponent (Identifier n) = (n = ''Component'')"
| "isBaseComponent (MemberExpression obj prop) =
     (nodeName obj = Some ''React'' \<and> nodeName prop = Some ''Component'')"
| "isBaseComponent _ = False"

text \<open>Running one visitor or subtree after another: an exception ends the walk.\<close>

definition andThen ::
  "extract_error + component list \<Rightarrow> extract_error + component list
     \<Rightarrow> extract_error + component list" where
  "andThen r k =
     (case r of
        Inl e \<Rightarrow> Inl e
      | Inr cs \<Rightarrow> (case k of Inl e \<Rightarrow> Inl e | Inr ds \<Rightarrow> Inr (cs @ ds)))"

text \<open>
  \<open>traverse\<close> walks the tree depth first and calls a node's visitor before it visits
  the node's children; the result lists the components in the order they are pushed.
  \<open>decl\<close> is the span of the nearest enclosing variable declaration, which is what
  \<open>path.findParent(p => p.isVariableDeclaration())\<close> finds from a declarator. The class
  visitor reads \<open>node.id.name\<close> without a test on \<open>node.id\<close>: for \<open>id = null\<close> that is
  a \<open>TypeError\<close>. Children are visited in source order; the components of different
  subtrees start at different offsets, so the sorted result of the extractor does not
  depend on the order in which Babel visits the fields of a node.
\<close>

fun traverse ::
  "(string \<Rightarrow> nat \<Rightarrow> nat \<Rightarrow> string \<Rightarrow> component) \<Rightarrow> (nat \<times> nat) option \<Rightarrow> node
     \<Rightarrow> extract_error + component list"
and traverseList ::
  "(string \<Rightarrow> nat \<Rightarrow> nat \<Rightarrow> string \<Rightarrow> component) \<Rightarrow> (nat \<times> nat) option \<Rightarrow> node list
     \<Rightarrow> extract_error + component list" where
  "traverse add decl Null = Inr []"
| "traverse add decl (Identifier n) = Inr []"
| "traverse add decl (MemberExpression obj prop) =
     andThen (traverse add decl obj) (traverse add decl prop)"
| "traverse add decl (CallExpression callee args) =
     andThen (traverse add decl callee) (traverseList add decl args)"
| "traverse add decl (ArrowFunctionExpression body) = traverseList add decl body"
| "traverse add decl (FunctionDeclaration s e ident body) =
     andThen
       (Inr (case ident of
               None \<Rightarrow> []
             | Some n \<Rightarrow> if hasUpperInitial n then [add n s e ''FunctionComponent''] else []))
       (traverseList add decl body)"
| "traverse add decl (VariableDeclaration s e declarations) =
     traverseList add (Some (s, e)) declarations"
| "traverse add decl (VariableDeclarator ident init) =
     andThen
       (Inr (case nodeName ident of
               None \<Rightarrow> []
             | Some n \<Rightarrow>
                 if hasUpperInitial n
                 then (case componentTypeOf init of
                         None \<Rightarrow> []
                       | Some ty \<Rightarrow>
                           (case decl of None \<Rightarrow> [] | Some (s, e) \<Rightarrow> [add n s e ty]))
                 else []))
       (andThen (traverse add decl ident) (traverse add decl init))"
| "traverse add decl (ClassDeclaration s e ident superClass body) =
     andThen
       (if isBaseComponent superClass
        then (case ident of
                None \<Rightarrow> Inl TypeError
              | Some n \<Rightarrow> Inr [add n s e ''ClassComponent''])
        else Inr [])
       (andThen (traverse add decl superClass) (traverseList add decl body))"
| "traverse add decl (Other children) = traverseList add decl children"
| "traverseList add decl [] = Inr []"
| "traverseList add decl (n # ns) = andThen (traverse add decl n) (traverseList add decl ns)"

text \<open>
  \<open>extractComponentsFromFile\<close>: a parse failure is caught and gives the empty list; the
  walk runs outside the \<open>try\<close> block, so what it throws leaves the function. The last
  step is the stable sort by \<open>startPos\<close> ascending.
\<close>

definition extractComponentsFromFile ::
  "(string \<Rightarrow> string \<Rightarrow> parse_error + node) \<Rightarrow> string \<Rightarrow> string \<Rightarrow> string
     \<Rightarrow> extract_error + component list" where
  "extractComponentsFromFile parse path fileContent relativePath =
     (case parse path fileContent of
        Inl parseError \<Rightarrow> Inr []
      | Inr ast \<Rightarrow>
          (case traverse (addComponent path fileContent relativePath) None ast of
             Inl e \<Rightarrow> Inl e
           | Inr components \<Rightarrow> Inr (sort_key startPos components)))"


section \<open>Notions used in the proofs\<close>

text \<open>The pattern \<open>pat\<close> occurs in \<open>s\<close> at index \<open>i\<close>.\<close>

definition occursAt :: "string \<Rightarrow> string \<Rightarrow> nat \<Rightarrow> bool" where
  "occursAt s pat i = (i \<le> length s \<and> prefix pat (drop i s))"

text \<open>
  What \<open>findExistingDocString\<close> tests, stated on the untrimmed text before a line: the
  text ends with a close marker followed by white space only, and it holds an open
  marker.
\<close>

definition docBefore :: "string \<Rightarrow> bool" where
  "docBefore before =
     ((\<exists>Y W. before = Y @ ''*/'' @ W \<and> (\<forall>c\<in>set W. isWhiteSpace c)) \<and> sublist ''/**'' before)"

text \<open>
  With update-existing off, the patcher leaves a declaration with first line \<open>pat\<close>
  alone in the buffer \<open>b\<close>: \<open>pat\<close> does not occur in \<open>b\<close>, or the line of its first
  occurrence follows a documentation block.
\<close>

definition settledSig :: "string \<Rightarrow> string \<Rightarrow> bool" where
  "settledSig b pat =
     (case indexOf b pat of
        None \<Rightarrow> True
      | Some i \<Rightarrow> docBefore (take (afterLastNewline (take i b)) b))"


section \<open>Concrete files and syntax trees\<close>

text \<open>
  The inputs at which the theorems below are evaluated. A component of an example is
  built by \<open>addComponent\<close> from the file's text and the span Babel reports for it, and
  a syntax tree is the tree Babel's parser gives for the text beside it.
\<close>

definition ex_path :: string where
  "ex_path = ''/p/src/a.js''"

definition ex_fs :: "string \<Rightarrow> file_system" where
  "ex_fs text = \<lparr>files = [ex_path \<mapsto> text], writable = (\<lambda>p. True)\<rparr>"

definition ex_doc :: "string \<Rightarrow> docStringResult" where
  "ex_doc d = \<lparr>docstring = Some d, doc_skipped = False, doc_error = None\<rparr>"

definition ex_component :: "string \<Rightarrow> string \<Rightarrow> nat \<Rightarrow> nat \<Rightarrow> component" where
  "ex_component text nm s e = addComponent ex_path text ''a.js'' nm s e ''ArrowFunctionComponent''"

text \<open>One call of \<open>updateFileWithDocStrings\<close>: its result and the file's text afterwards.\<close>

definition ex_run ::
  "string \<Rightarrow> component list \<Rightarrow> (string \<rightharpoonup> docStringResult) \<Rightarrow> bool \<Rightarrow> bool
     \<Rightarrow> update_result \<times> string option" where
  "ex_run text cs ds dry upd =
     (let (r, fs) = updateFileWithDocStrings (ex_fs text) ex_path cs ds
                      \<lparr>isDryRun = dry, updateExisting = upd\<rparr>
      in (r, files fs ex_path))"

text \<open>A documented component in a file that starts with an empty line.\<close>

definition leading_text :: string where
  "leading_text = ''\<newline>/** old */\<newline>const Foo = () => 1;\<newline>''"

definition leading_foo :: component where
  "leading_foo = ex_component leading_text ''Foo'' 12 32"

text \<open>A documented component at the start of a file.\<close>

definition documented_text :: string where
  "documented_text = ''/** Foo */\<newline>const Foo = () => 1;\<newline>''"

definition documented_foo :: component where
  "documented_foo = ex_component documented_text ''Foo'' 11 31"

text \<open>A file that no longer holds the component's first line.\<close>

definition other_text :: string where
  "other_text = ''const Bar = () => 2;\<newline>''"




text \<open>Two exported arrow components, each on a line of its own, and their documentation.\<close>

definition two_text:: string where
  "two_text =
     ''// header\<newline>\<newline>export const Foo = () => 1;\<newline>\<newline>export const Bar = () => 2;\<newline>''"

definition two_foo :: component where
  "two_foo = ex_component two_text ''Foo'' 18 38"

definition two_bar :: component where
  "two_bar = ex_component two_text ''Bar'' 47 67"

definition two_docs :: "string \<rightharpoonup> docStringResult" where
  "two_docs = [uniqueId two_foo \<mapsto> ex_doc ''/** Foo */'', uniqueId two_bar \<mapsto> ex_doc ''/** Bar */'']"

text \<open>
  A component whose documentation quotes its first line; \<open>quoted_text1\<close> is the file
  after one run and \<open>quoted_text2\<close> after two, \<open>quoted_foo1\<close> is the component as the
  locator reports it in \<open>quoted_text1\<close>.
\<close>

definition quoted_text :: string where
  "quoted_text = ''const Foo = () => 1;\<newline>''"

definition quoted_doc :: string where
  "quoted_doc = sanitizeDocString ''/**\<newline> * Use: const Foo = () => 1;\<newline> */''"

definition quoted_foo :: component where
  "quoted_foo = ex_component quoted_text ''Foo'' 0 20"

definition quoted_text1 :: string where
  "quoted_text1 =
     ''/** *\<newline> * Use: const Foo = () => 1;\<newline> \<newline> */\<newline>const Foo = () => 1;\<newline>''"

definition quoted_foo1 :: component where
  "quoted_foo1 = ex_component quoted_text1 ''Foo'' 41 61"

definition quoted_text2 :: string where
  "quoted_text2 =
     ''/** *\<newline>/** *\<newline> * Use: const Foo = () => 1;\<newline> \<newline> */\<newline> * Use: const Foo = () => 1;\<newline> \<newline> */\<newline>const Foo = () => 1;\<newline>''"

text \<open>The file \<open>two_text\<close> after one run, and its two components as located there.\<close>

definition moved_text :: string where
  "moved_text =
     ''// header\<newline>\<newline>/** Foo */\<newline>export const Foo = () => 1;\<newline>\<newline>/** Bar */\<newline>export const Bar = () => 2;\<newline>''"

definition moved_foo :: component where
  "moved_foo = ex_component moved_text ''Foo'' 29 49"

definition moved_bar :: component where
  "moved_bar = ex_component moved_text ''Bar'' 69 89"

definition moved_docs :: "string \<rightharpoonup> docStringResult" where
  "moved_docs =
     [uniqueId moved_foo \<mapsto> ex_doc ''/** Foo */'', uniqueId moved_bar \<mapsto> ex_doc ''/** Bar */'']"





text \<open>The same two components under a licence header, an import and the plain comment.\<close>

definition licence_text :: string where
  "licence_text =
     ''/** MIT */\<newline>import x from './x';\<newline>/* main */\<newline>export const Foo = () => 1;\<newline>export const Bar = () => 2;\<newline>''"

definition licence_foo :: component where
  "licence_foo = ex_component licence_text ''Foo'' 50 70"

definition licence_bar :: component where
  "licence_bar = ex_component licence_text ''Bar'' 78 98"

definition licence_docs :: "string \<rightharpoonup> docStringResult" where
  "licence_docs =
     [uniqueId licence_foo \<mapsto> ex_doc ''/** Foo */'',
      uniqueId licence_bar \<mapsto> ex_doc ''/** Bar */'']"

text \<open>A function component that declares an arrow component in its body.\<close>

definition nested_text :: string where
  "nested_text =
     ''function Outer() {\<newline>  const Inner = () => 1;\<newline>  return Inner;\<newline>}\<newline>''"

definition nested_ast :: node where
  "nested_ast =
     Other [FunctionDeclaration 0 61 (Some ''Outer'')
       [Other [VariableDeclaration 21 43
                 [VariableDeclarator (Identifier ''Inner'') (ArrowFunctionExpression [Other []])],
               Other [Identifier ''Inner'']]]]"

definition nested_outer :: component where
  "nested_outer = addComponent ex_path nested_text ''a.js'' ''Outer'' 0 61 ''FunctionComponent''"

definition nested_inner :: component where
  "nested_inner = addComponent ex_path nested_text ''a.js'' ''Inner'' 21 43 ''ArrowFunctionComponent''"

text \<open>A class component with a lower-case name.\<close>

definition lower_class_text :: string where
  "lower_class_text = ''class foo extends Component {}\<newline>''"

definition lower_class_ast :: node where
  "lower_class_ast =
     Other [ClassDeclaration 0 30 (Some ''foo'') (Identifier ''Component'') [Other []]]"

definition lower_class_foo :: component where
  "lower_class_foo = addComponent ex_path lower_class_text ''a.js'' ''foo'' 0 30 ''ClassComponent''"

text \<open>An arrow component followed by an anonymous default-exported class component.\<close>

definition anon_class_text :: string where
  "anon_class_text =
     ''const Foo = () => 1;\<newline>export default class extends Component {}\<newline>''"

definition anon_class_ast :: node where
  "anon_class_ast =
     Other [VariableDeclaration 0 20
              [VariableDeclarator (Identifier ''Foo'') (ArrowFunctionExpression [Other []])],
            Other [ClassDeclaration 36 62 None (Identifier ''Component'') [Other []]]]"


section \<open>Properties of sanitizeDocString\<close>

text \<open>
  C9: for every input string, the result of \<open>sanitizeDocString\<close> starts with the open
  marker \<open>/**\<close> and ends with the close marker \<open>*/\<close>.
\<close>

theorem sanitizeDocString_delimited:
  "startsWith (sanitizeDocString d) ''/**'' \<and> endsWith (sanitizeDocString d) ''*/''"
proof -
  define body where "body = removeAll_str ''*/'' (removeAll_str ''**/'' (removeAll_str ''/*'' d))"
  define opened where
    "opened = (if \<not> startsWith body ''/**''
               then ''/**'' @ (if startsWith body ''*'' then [] else ''\<newline> *'') @ '' '' @ body
               else body)"
  have res: "sanitizeDocString d =
      (if \<not> endsWith opened ''*/'' then opened @ ''\<newline> */'' else opened)"
    by (simp add: sanitizeDocString_def Let_def body_def opened_def)
  have op: "prefix ''/**'' opened"
    by (simp add: opened_def startsWith_def)
  have "prefix ''/**'' (sanitizeDocString d)"
    unfolding res using op by (simp add: prefix_prefix)
  moreover have "suffix ''*/'' (sanitizeDocString d)"
  proof (cases "endsWith opened ''*/''")
    case True
    then show ?thesis unfolding res by (simp add: endsWith_def)
  next
    case False
    have "suffix ''*/'' (opened @ ''\<newline> */'')"
      by (rule suffixI [of _ "opened @ ''\<newline> ''"]) simp
    with False show ?thesis unfolding res by simp
  qed
  ultimately show ?thesis
    by (simp add: startsWith_def endsWith_def)
qed

text \<open>
  C4: the claim is that sanitizing strips every close marker from the body, so that the
  first \<open>*/\<close> of the result is at its end. The replacements are single passes, and a
  removal can join a \<open>*\<close> and a \<open>/\<close> into a new close marker: for the oracle
  response \<open>/** ****///x */\<close> the result is \<open>/** * */x\<close>, a line break and \<open>*/\<close>; it
  has 14 characters and its first close marker is at index 6, not at index 12.
\<close>

theorem sanitizeDocString_close_marker_survives:
  "sanitizeDocString ''/** ****///x */'' = ''/** * */x \<newline> */'' \<and>
   indexOf (sanitizeDocString ''/** ****///x */'') ''*/'' = Some 6 \<and>
   length (sanitizeDocString ''/** ****///x */'') = 14"
  by code_simp


section \<open>Properties of the string primitives\<close>

lemma substring_0: "substring s 0 n = take n s"
  by (simp add: substring_def Let_def min_def)


lemma lastIndexDown_Some:
  "lastIndexDown s pat n = Some i \<longleftrightarrow>
     i \<le> n \<and> prefix pat (drop i s) \<and> (\<forall>j. i < j \<and> j \<le> n \<longrightarrow> \<not> prefix pat (drop j s))"
proof (induction n)
  case 0
  then show ?case by auto
next
  case (Suc n)
  show ?case
  proof (cases "prefix pat (drop (Suc n) s)")
    case True
    then show ?thesis
      by (auto simp: le_Suc_eq) 
  next
    case False
    then show ?thesis
      using Suc by (auto simp: le_Suc_eq)
  qed
qed

lemma lastIndexDown_None:
  "lastIndexDown s pat n = None \<longleftrightarrow> (\<forall>j\<le>n. \<not> prefix pat (drop j s))"
  by (induction n) (auto simp: le_Suc_eq)

lemma prefix_NL: "prefix [NL] t \<longleftrightarrow> (\<exists>t'. t = NL # t')"
  by (cases t) auto

lemma afterLastNewline_line:
  assumes "X = [] \<or> last X = NL" and "NL \<notin> set L"
  shows "afterLastNewline (X @ L) = length X"
proof (cases "X = []")
  case True
  have "\<not> prefix [NL] (drop j L)" for j
  proof
    assume "prefix [NL] (drop j L)"
    then obtain t where "drop j L = NL # t" by (auto simp: prefix_NL)
    then have "NL \<in> set (drop j L)" by simp
    then show False using assms(2) by (meson in_set_dropD)
  qed
  then have "lastIndexOf L [NL] = None"
    by (simp add: lastIndexOf_def lastIndexOfFrom_def lastIndexDown_None)
  with True show ?thesis by (simp add: afterLastNewline_def)
next
  case False
  with assms(1) obtain X' where X: "X = X' @ [NL]"
    by (metis append_butlast_last_id)
  have occ: "prefix [NL] (drop (length X') (X @ L))"
    by (simp add: X)
  have later: "\<not> prefix [NL] (drop j (X @ L))" if "length X' < j" for j
  proof
    assume "prefix [NL] (drop j (X @ L))"
    then obtain t where t: "drop j (X @ L) = NL # t" by (auto simp: prefix_NL)
    from that have "drop j (X @ L) = drop (j - length X) L"
      by (simp add: X drop_Cons')
    with t have "NL \<in> set (drop (j - length X) L)" by (metis list.set_intros(1))
    then show False using assms(2) by (meson in_set_dropD)
  qed
  have "lastIndexOf (X @ L) [NL] = Some (length X')"
    unfolding lastIndexOf_def lastIndexOfFrom_def lastIndexDown_Some
    using occ later by (auto simp: X)
  then show ?thesis by (simp add: afterLastNewline_def X)
qed


lemma split_not_Nil: "split s sep \<noteq> []"
  by (induction s) (auto split: list.splits)

lemma hd_split: "hd (split s sep) = takeWhile (\<lambda>c. c \<noteq> sep) s"
  using split_not_Nil [of _ sep]
  by (induction s) (auto split: list.splits)




lemma occursAt_Cons_0: "occursAt (c # cs) pat 0 = prefix pat (c # cs)"
  by (simp add: occursAt_def)

lemma occursAt_Cons_Suc: "occursAt (c # cs) pat (Suc j) = occursAt cs pat j"
  by (simp add: occursAt_def)

lemma occursAt_Nil: "occursAt [] pat j = (j = 0 \<and> pat = [])"
  by (auto simp: occursAt_def)

lemma indexOf_Some_iff:
  "indexOf s pat = Some i \<longleftrightarrow> occursAt s pat i \<and> (\<forall>j<i. \<not> occursAt s pat j)"
proof (induction s arbitrary: i)
  case Nil
  then show ?case by (auto simp: occursAt_Nil)
next
  case (Cons c cs)
  show ?case
  proof (cases "prefix pat (c # cs)")
    case True
    then show ?thesis
      by (cases i) (auto simp: occursAt_Cons_0 occursAt_Cons_Suc)
  next
    case False
    show ?thesis
    proof (cases i)
      case 0
      with False show ?thesis by (simp add: occursAt_Cons_0)
    next
      case (Suc k)
      have "(\<forall>j<Suc k. \<not> occursAt (c # cs) pat j) \<longleftrightarrow> (\<forall>j<k. \<not> occursAt cs pat j)"
        using False by (auto simp: less_Suc_eq_0_disj occursAt_Cons_0 occursAt_Cons_Suc)
      with False Suc Cons.IH [of k] show ?thesis
        by (auto simp: occursAt_Cons_Suc)
    qed
  qed
qed

lemma indexOf_None_iff: "indexOf s pat = None \<longleftrightarrow> (\<forall>j. \<not> occursAt s pat j)"
proof (induction s)
  case Nil
  then show ?case by (auto simp: occursAt_Nil)
next
  case (Cons c cs)
  have "(\<forall>j. \<not> occursAt (c # cs) pat j) \<longleftrightarrow> \<not> prefix pat (c # cs) \<and> (\<forall>j. \<not> occursAt cs pat j)"
    by (metis occursAt_Cons_0 occursAt_Cons_Suc not0_implies_Suc)
  with Cons show ?case by simp
qed

lemma occursAt_sublist: "occursAt s pat i \<Longrightarrow> sublist pat s"
proof -
  assume "occursAt s pat i"
  then obtain r where "drop i s = pat @ r" by (auto simp: occursAt_def prefix_def)
  then have "s = take i s @ pat @ r" by (metis append_take_drop_id)
  then show ?thesis unfolding sublist_def by blast
qed

lemma sublist_occursAt: "sublist pat s \<Longrightarrow> \<exists>i. occursAt s pat i"
proof -
  assume "sublist pat s"
  then obtain ps ss where "s = ps @ pat @ ss" by (auto simp: sublist_def)
  then have "occursAt s pat (length ps)" by (simp add: occursAt_def)
  then show ?thesis ..
qed

lemma indexOf_None_sublist: "indexOf s pat = None \<longleftrightarrow> \<not> sublist pat s"
  using indexOf_None_iff occursAt_sublist sublist_occursAt by blast

lemma occursAt_nth:
  assumes "occursAt s pat j" and "m < length pat"
  shows "j + m < length s \<and> pat ! m = s ! (j + m)"
proof -
  from assms(1) obtain r where r: "drop j s = pat @ r" and j: "j \<le> length s"
    by (auto simp: occursAt_def prefix_def)
  from r have "length (drop j s) = length pat + length r" by (metis length_append)
  with assms(2) have lt: "j + m < length s" by simp
  have "pat ! m = (pat @ r) ! m" using assms(2) by (simp add: nth_append)
  also have "\<dots> = drop j s ! m" by (simp add: r)
  also have "\<dots> = s ! (j + m)" using j by simp
  finally show ?thesis using lt by simp
qed

lemma occursAt_short:
  "j + length pat \<le> length U \<Longrightarrow> occursAt (U @ X) pat j = occursAt U pat j"
proof -
  assume a: "j + length pat \<le> length U"
  then have "drop j (U @ X) = drop j U @ X" by simp
  moreover have "length pat \<le> length (drop j U)" using a by simp
  ultimately have "prefix pat (drop j (U @ X)) = prefix pat (drop j U)"
    by (metis prefix_length_prefix prefix_prefix prefixI)
  with a show ?thesis by (simp add: occursAt_def)
qed

lemma occursAt_shift:
  "length A \<le> j \<Longrightarrow> occursAt (A @ V) pat j = occursAt V pat (j - length A)"
  by (auto simp: occursAt_def)

text \<open>An occurrence of a one-line pattern does not cross a line break.\<close>

lemma occursAt_no_NL:
  assumes "occursAt s pat j" and "NL \<notin> set pat" and "j \<le> k" and "k < j + length pat"
  shows "s ! k \<noteq> NL"
proof -
  from assms(3,4) have m: "k - j < length pat" by simp
  from occursAt_nth [OF assms(1) m] assms(3) have "pat ! (k - j) = s ! k" by simp
  moreover have "pat ! (k - j) \<in> set pat" using m by simp
  ultimately show ?thesis using assms(2) by metis
qed

lemma last_nth_append:
  "U \<noteq> [] \<Longrightarrow> (U @ X) ! (length U - 1) = last U"
  by (simp add: nth_append last_conv_nth)

lemma occursAt_insert:
  assumes nl: "NL \<notin> set pat" and U: "U = [] \<or> last U = NL" and d: "\<not> sublist pat d"
  shows "occursAt (U @ d @ [NL] @ V) pat j \<longleftrightarrow>
           (j + length pat \<le> length U \<and> occursAt (U @ V) pat j) \<or>
           (length U + length d + 1 \<le> j \<and> occursAt (U @ V) pat (j - (length d + 1)))"
proof -
  have ne: "0 < length pat" using d by auto
  consider (before) "j + length pat \<le> length U"
    | (after) "length U + length d + 1 \<le> j"
    | (crossU) "j < length U" "length U < j + length pat"
    | (inside) "length U \<le> j" "j + length pat \<le> length U + length d"
    | (crossNL) "length U \<le> j" "j \<le> length U + length d" "length U + length d < j + length pat"
    by linarith
  then show ?thesis
  proof cases
    case before
    then have "occursAt (U @ d @ [NL] @ V) pat j = occursAt (U @ V) pat j"
      by (simp add: occursAt_short)
    moreover have "\<not> length U + length d + 1 \<le> j"
      using before ne by linarith
    ultimately show ?thesis using before by blast
  next
    case after
    have e: "j - length (U @ d @ [NL]) = j - (length d + 1) - length U" by simp
    have "occursAt (U @ d @ [NL] @ V) pat j = occursAt ((U @ d @ [NL]) @ V) pat j" by simp
    also have "\<dots> = occursAt V pat (j - length (U @ d @ [NL]))"
      using after by (subst occursAt_shift) simp_all
    also have "\<dots> = occursAt V pat (j - (length d + 1) - length U)"
      by (simp only: e)
    also have "\<dots> = occursAt (U @ V) pat (j - (length d + 1))"
      using after by (subst occursAt_shift) simp_all
    finally have "occursAt (U @ d @ [NL] @ V) pat j = occursAt (U @ V) pat (j - (length d + 1))" .
    moreover have "\<not> j + length pat \<le> length U"
      using after ne by linarith
    ultimately show ?thesis using after by blast
  next
    case crossU
    then have Une: "U \<noteq> []" by auto
    have "\<not> occursAt (U @ d @ [NL] @ V) pat j"
    proof
      assume "occursAt (U @ d @ [NL] @ V) pat j"
      from occursAt_no_NL [OF this nl, of "length U - 1"] crossU
      have "(U @ d @ [NL] @ V) ! (length U - 1) \<noteq> NL" by simp
      moreover have "(U @ d @ [NL] @ V) ! (length U - 1) = last U"
        using Une by (rule last_nth_append)
      ultimately show False using Une U by simp
    qed
    moreover have "\<not> occursAt (U @ V) pat j"
    proof
      assume "occursAt (U @ V) pat j"
      from occursAt_no_NL [OF this nl, of "length U - 1"] crossU
      have "(U @ V) ! (length U - 1) \<noteq> NL" by simp
      moreover have "(U @ V) ! (length U - 1) = last U"
        using Une by (rule last_nth_append)
      ultimately show False using Une U by simp
    qed
    moreover have "\<not> length U + length d + 1 \<le> j"
      using crossU by linarith
    ultimately show ?thesis by blast
  next
    case inside
    have "\<not> occursAt (U @ d @ [NL] @ V) pat j"
    proof
      assume "occursAt (U @ d @ [NL] @ V) pat j"
      then have "occursAt (d @ [NL] @ V) pat (j - length U)"
        using inside by (simp add: occursAt_shift)
      then have "occursAt d pat (j - length U)"
        using inside by (simp add: occursAt_short)
      then show False using d occursAt_sublist by blast
    qed
    moreover have "\<not> j + length pat \<le> length U" "\<not> length U + length d + 1 \<le> j"
      using inside ne by linarith+
    ultimately show ?thesis by blast
  next
    case crossNL
    have "\<not> occursAt (U @ d @ [NL] @ V) pat j"
    proof
      assume "occursAt (U @ d @ [NL] @ V) pat j"
      from occursAt_no_NL [OF this nl, of "length U + length d"] crossNL
      have "(U @ d @ [NL] @ V) ! (length U + length d) \<noteq> NL" by simp
      moreover have "(U @ d @ [NL] @ V) ! (length U + length d) = NL"
        by (simp add: nth_append)
      ultimately show False by simp
    qed
    moreover have "\<not> j + length pat \<le> length U" "\<not> length U + length d + 1 \<le> j"
      using crossNL ne by linarith+
    ultimately show ?thesis by blast
  qed
qed

lemma occursAt_no_cross:
  assumes "occursAt (U @ V) pat i" and "NL \<notin> set pat" and "U = [] \<or> last U = NL"
    and "i < length U"
  shows "i + length pat \<le> length U"
proof (rule ccontr)
  assume "\<not> i + length pat \<le> length U"
  with assms(4) have "i \<le> length U - 1" "length U - 1 < i + length pat" by simp_all
  from occursAt_no_NL [OF assms(1,2) this] have "(U @ V) ! (length U - 1) \<noteq> NL" .
  moreover have "U \<noteq> []" using assms(4) by auto
  then have "(U @ V) ! (length U - 1) = last U" by (rule last_nth_append)
  ultimately show False using assms(3) \<open>U \<noteq> []\<close> by simp
qed

lemma indexOf_insert_None:
  assumes "NL \<notin> set pat" and "U = [] \<or> last U = NL" and "\<not> sublist pat d"
    and "indexOf (U @ V) pat = None"
  shows "indexOf (U @ d @ [NL] @ V) pat = None"
  using assms(4) by (simp only: indexOf_None_iff occursAt_insert [OF assms(1,2,3)]) simp

lemma indexOf_insert_Some:
  assumes nl: "NL \<notin> set pat" and U: "U = [] \<or> last U = NL" and d: "\<not> sublist pat d"
    and i: "indexOf (U @ V) pat = Some i"
  shows "indexOf (U @ d @ [NL] @ V) pat = Some (if i < length U then i else i + length d + 1)"
proof -
  from i have occ: "occursAt (U @ V) pat i" and least: "\<forall>j<i. \<not> occursAt (U @ V) pat j"
    by (simp_all add: indexOf_Some_iff)
  note ins = occursAt_insert [OF nl U d]
  show ?thesis
  proof (cases "i < length U")
    case True
    with occursAt_no_cross [OF occ nl U] have fit: "i + length pat \<le> length U" by simp
    have "occursAt (U @ d @ [NL] @ V) pat i"
      using occ fit by (simp only: ins) simp
    moreover have "\<not> occursAt (U @ d @ [NL] @ V) pat j" if "j < i" for j
      using that least by (simp only: ins) simp
    ultimately show ?thesis
      using True by (simp only: indexOf_Some_iff) simp
  next
    case False
    have "occursAt (U @ d @ [NL] @ V) pat (i + length d + 1)"
      using occ False by (simp only: ins) simp
    moreover have "\<not> occursAt (U @ d @ [NL] @ V) pat j" if "j < i + length d + 1" for j
    proof -
      have "\<not> (j + length pat \<le> length U \<and> occursAt (U @ V) pat j)"
      proof
        assume a: "j + length pat \<le> length U \<and> occursAt (U @ V) pat j"
        have "0 < length pat" using d by auto
        with a False have "j < i" by linarith
        with least a show False by simp
      qed
      moreover have "\<not> (length U + length d + 1 \<le> j \<and> occursAt (U @ V) pat (j - (length d + 1)))"
      proof
        assume a: "length U + length d + 1 \<le> j \<and> occursAt (U @ V) pat (j - (length d + 1))"
        with that have "j - (length d + 1) < i" by linarith
        with least a show False by simp
      qed
      ultimately show ?thesis by (simp only: ins) simp
    qed
    ultimately show ?thesis
      using False by (simp only: indexOf_Some_iff) simp
  qed
qed

lemma line_decomp:
  "\<exists>X L. s = X @ L \<and> (X = [] \<or> last X = NL) \<and> NL \<notin> set L"
proof -
  define L where "L = rev (takeWhile (\<lambda>c. c \<noteq> NL) (rev s))"
  define X where "X = rev (dropWhile (\<lambda>c. c \<noteq> NL) (rev s))"
  have "X @ L = rev (takeWhile (\<lambda>c. c \<noteq> NL) (rev s) @ dropWhile (\<lambda>c. c \<noteq> NL) (rev s))"
    by (simp only: X_def L_def rev_append)
  then have "s = X @ L" by simp
  moreover have "X = [] \<or> last X = NL"
  proof (cases "X = []")
    case False
    then have ne: "dropWhile (\<lambda>c. c \<noteq> NL) (rev s) \<noteq> []" by (simp add: X_def)
    then have "hd (dropWhile (\<lambda>c. c \<noteq> NL) (rev s)) = NL"
      using hd_dropWhile [of "\<lambda>c. c \<noteq> NL" "rev s"] by simp
    then show ?thesis using ne by (simp add: X_def last_rev)
  qed simp
  moreover have "NL \<notin> set L"
    by (auto simp: L_def dest: set_takeWhileD)
  ultimately show ?thesis by blast
qed

lemma afterLastNewline_append:
  assumes "A = [] \<or> last A = NL"
  shows "afterLastNewline (A @ Z) = length A + afterLastNewline Z"
proof -
  obtain X L where Z: "Z = X @ L" and X: "X = [] \<or> last X = NL" and L: "NL \<notin> set L"
    using line_decomp by blast
  have "afterLastNewline Z = length X"
    unfolding Z by (rule afterLastNewline_line [OF X L])
  moreover have "A @ X = [] \<or> last (A @ X) = NL"
    using assms X by (cases "X = []") simp_all
  then have "afterLastNewline ((A @ X) @ L) = length (A @ X)"
    using L by (rule afterLastNewline_line)
  ultimately show ?thesis by (simp add: Z)
qed

lemma afterLastNewline_take:
  "take (afterLastNewline s) s = [] \<or> last (take (afterLastNewline s) s) = NL"
  "afterLastNewline (take (afterLastNewline s) s) = afterLastNewline s"
  "afterLastNewline s \<le> length s"
proof -
  obtain X L where s: "s = X @ L" and X: "X = [] \<or> last X = NL" and L: "NL \<notin> set L"
    using line_decomp by blast
  have a: "afterLastNewline s = length X"
    unfolding s by (rule afterLastNewline_line [OF X L])
  then have t: "take (afterLastNewline s) s = X" by (simp add: s)
  show "take (afterLastNewline s) s = [] \<or> last (take (afterLastNewline s) s) = NL"
    using X t by simp
  show "afterLastNewline (take (afterLastNewline s) s) = afterLastNewline s"
    using afterLastNewline_line [OF X, of "[]"] a t by simp
  show "afterLastNewline s \<le> length s"
    using a s by simp
qed

lemma not_ws_star: "\<not> isWhiteSpace CHR ''*''" "\<not> isWhiteSpace CHR ''/''"
  by (simp_all add: isWhiteSpace_def)

lemma ws_NL: "isWhiteSpace NL"
  by (simp add: isWhiteSpace_def)

lemma trimEnd_append_ws:
  "\<forall>c\<in>set W. isWhiteSpace c \<Longrightarrow> trimEnd (y @ W) = trimEnd y"
  by (simp add: trimEnd_def dropWhile_append)

lemma trimEnd_snoc:
  "\<not> isWhiteSpace c \<Longrightarrow> trimEnd (y @ [c]) = y @ [c]"
  by (simp add: trimEnd_def)

lemma trim_decomp:
  "\<exists>W1 W2. x = W1 @ trim x @ W2 \<and> (\<forall>c\<in>set W1. isWhiteSpace c) \<and> (\<forall>c\<in>set W2. isWhiteSpace c)"
proof -
  define y where "y = trimStart x"
  define W1 where "W1 = takeWhile isWhiteSpace x"
  define W2 where "W2 = rev (takeWhile isWhiteSpace (rev y))"
  have "x = W1 @ y"
    by (simp add: W1_def y_def trimStart_def)
  moreover have "rev (trimEnd y @ W2) = rev y"
    by (simp add: trimEnd_def W2_def)
  then have "y = trimEnd y @ W2"
    by (metis rev_is_rev_conv)
  moreover have "\<forall>c\<in>set W1. isWhiteSpace c"
    by (auto simp: W1_def dest: set_takeWhileD)
  moreover have "\<forall>c\<in>set W2. isWhiteSpace c"
    by (auto simp: W2_def dest: set_takeWhileD)
  ultimately show ?thesis
    unfolding trim_def y_def [symmetric] by (metis append.assoc)
qed

lemma endsWith_trim_iff:
  "endsWith (trim x) ''*/'' \<longleftrightarrow>
     (\<exists>Y W. x = Y @ ''*/'' @ W \<and> (\<forall>c\<in>set W. isWhiteSpace c))"
proof
  assume "endsWith (trim x) ''*/''"
  then obtain Z where Z: "trim x = Z @ ''*/''"
    by (auto simp: endsWith_def suffix_def)
  obtain W1 W2 where "x = W1 @ trim x @ W2" and W2: "\<forall>c\<in>set W2. isWhiteSpace c"
    using trim_decomp by blast
  then have "x = (W1 @ Z) @ ''*/'' @ W2"
    by (simp add: Z)
  with W2 show "\<exists>Y W. x = Y @ ''*/'' @ W \<and> (\<forall>c\<in>set W. isWhiteSpace c)"
    by blast
next
  assume "\<exists>Y W. x = Y @ ''*/'' @ W \<and> (\<forall>c\<in>set W. isWhiteSpace c)"
  then obtain Y W where x: "x = Y @ ''*/'' @ W" and W: "\<forall>c\<in>set W. isWhiteSpace c"
    by blast
  have "\<exists>Y'. trimStart x = Y' @ ''*/'' @ W"
  proof (cases "\<forall>c\<in>set Y. isWhiteSpace c")
    case True
    then have "trimStart x = [] @ ''*/'' @ W"
      by (simp add: trimStart_def x dropWhile_append not_ws_star)
    then show ?thesis by blast
  next
    case False
    then have "trimStart x = dropWhile isWhiteSpace Y @ ''*/'' @ W"
      by (simp add: trimStart_def x dropWhile_append not_ws_star)
    then show ?thesis by blast
  qed
  then obtain Y' where "trimStart x = Y' @ ''*/'' @ W" by blast
  then have "trimStart x = ((Y' @ ''*'') @ ''/'') @ W" by simp
  then have "trim x = trimEnd ((Y' @ ''*'') @ ''/'')"
    unfolding trim_def using W by (simp only: trimEnd_append_ws)
  also have "\<dots> = (Y' @ ''*'') @ ''/''"
    by (rule trimEnd_snoc) (rule not_ws_star)
  finally have "trim x = Y' @ ''*/''" by simp
  then show "endsWith (trim x) ''*/''"
    by (simp add: endsWith_def suffix_def)
qed

lemma sublist_dropWhile_ws:
  "sublist (p # ps) x \<Longrightarrow> \<not> isWhiteSpace p \<Longrightarrow> sublist (p # ps) (dropWhile isWhiteSpace x)"
proof (induction x)
  case Nil
  then show ?case by simp
next
  case (Cons c cs)
  show ?case
  proof (cases "isWhiteSpace c")
    case True
    with Cons.prems have "p \<noteq> c" by auto
    with Cons.prems have "sublist (p # ps) cs" by (auto simp: sublist_Cons_right)
    with Cons.IH Cons.prems True show ?thesis by simp
  next
    case False
    with Cons.prems show ?thesis by simp
  qed
qed

lemma sublist_trim_iff: "sublist ''/**'' (trim x) \<longleftrightarrow> sublist ''/**'' x"
proof
  assume "sublist ''/**'' (trim x)"
  then obtain u v where "trim x = u @ ''/**'' @ v" by (auto simp: sublist_def)
  moreover obtain W1 W2 where "x = W1 @ trim x @ W2" using trim_decomp by blast
  ultimately have "x = (W1 @ u) @ ''/**'' @ (v @ W2)" by simp
  then show "sublist ''/**'' x" unfolding sublist_def by blast
next
  assume a: "sublist ''/**'' x"
  have s: "sublist ''/**'' (trimStart x)"
    unfolding trimStart_def using a by (rule sublist_dropWhile_ws) (rule not_ws_star)
  have "sublist (rev ''/**'') (rev (trimStart x))"
    using s by (simp only: sublist_rev)
  then have "sublist ''**/'' (rev (trimStart x))" by simp
  then have "sublist ''**/'' (dropWhile isWhiteSpace (rev (trimStart x)))"
    by (rule sublist_dropWhile_ws) (rule not_ws_star)
  then have "sublist (rev ''**/'') (rev (dropWhile isWhiteSpace (rev (trimStart x))))"
    by (simp only: sublist_rev)
  then show "sublist ''/**'' (trim x)"
    by (simp add: trim_def trimEnd_def)
qed

lemma lastIndexOf_suffix:
  assumes "suffix pat x"
  shows "lastIndexOf x pat = Some (length x - length pat)"
proof -
  from assms obtain y where x: "x = y @ pat" by (auto simp: suffix_def)
  have "prefix pat (drop (length x - length pat) x)" by (simp add: x)
  then show ?thesis
    unfolding lastIndexOf_def lastIndexOfFrom_def lastIndexDown_Some by auto
qed

lemma occursAt_length: "occursAt s pat i \<Longrightarrow> i + length pat \<le> length s"
proof -
  assume "occursAt s pat i"
  then obtain r where "drop i s = pat @ r" and "i \<le> length s"
    by (auto simp: occursAt_def prefix_def)
  then have "length s - i = length pat + length r"
    by (metis length_append length_drop)
  with \<open>i \<le> length s\<close> show ?thesis by simp
qed

lemma lastIndexOfFrom_open_None:
  "lastIndexOfFrom x ''/**'' (length x - 2) = None \<longleftrightarrow> \<not> sublist ''/**'' x"
proof
  assume n: "lastIndexOfFrom x ''/**'' (length x - 2) = None"
  show "\<not> sublist ''/**'' x"
  proof
    assume "sublist ''/**'' x"
    then obtain i where i: "occursAt x ''/**'' i" using sublist_occursAt by blast
    from occursAt_length [OF i] have "i \<le> min (length x - 2) (length x - length ''/**'')" by simp
    moreover have "prefix ''/**'' (drop i x)" using i by (simp add: occursAt_def)
    ultimately show False
      using n unfolding lastIndexOfFrom_def lastIndexDown_None by blast
  qed
next
  assume "\<not> sublist ''/**'' x"
  then have "\<not> prefix ''/**'' (drop j x)" for j
    by (metis sublist_altdef' suffix_drop)
  then show "lastIndexOfFrom x ''/**'' (length x - 2) = None"
    unfolding lastIndexOfFrom_def lastIndexDown_None by simp
qed

lemma docBefore_iff:
  "docBefore x \<longleftrightarrow> endsWith (trim x) ''*/'' \<and> sublist ''/**'' (trim x)"
  unfolding docBefore_def endsWith_trim_iff sublist_trim_iff by (rule refl)

lemma findExistingDocString_None_iff:
  "findExistingDocString b p = None \<longleftrightarrow> \<not> docBefore (take p b)"
proof (cases "endsWith (trim (take p b)) ''*/''")
  case False
  then show ?thesis
    by (simp add: findExistingDocString_def substring_0 docBefore_iff)
next
  case True
  then have "lastIndexOf (trim (take p b)) ''*/'' = Some (length (trim (take p b)) - 2)"
    using lastIndexOf_suffix [of "''*/''" "trim (take p b)"] by (simp add: endsWith_def)
  with True have "findExistingDocString b p = None \<longleftrightarrow> \<not> sublist ''/**'' (trim (take p b))"
    by (simp add: findExistingDocString_def substring_0 Let_def lastIndexOfFrom_open_None [symmetric]
             split: option.splits)
  with True show ?thesis
    by (simp add: docBefore_iff)
qed

lemma docBefore_insert_end:
  assumes "startsWith d ''/**''" and "endsWith d ''*/''"
  shows "docBefore (U @ d @ [NL])"
proof -
  from assms obtain d1 d2 where d1: "d = d1 @ ''*/''" and d2: "d = ''/**'' @ d2"
    by (auto simp: startsWith_def endsWith_def prefix_def suffix_def)
  have "U @ d @ [NL] = (U @ d1) @ ''*/'' @ [NL]" by (simp add: d1)
  moreover have "\<forall>c\<in>set [NL]. isWhiteSpace c" by (simp add: ws_NL)
  moreover have "U @ d @ [NL] = U @ ''/**'' @ (d2 @ [NL])" by (simp add: d2)
  then have "sublist ''/**'' (U @ d @ [NL])" unfolding sublist_def by blast
  ultimately show ?thesis unfolding docBefore_def by blast
qed

lemma docBefore_insert_mid:
  assumes wf: "startsWith d ''/**''" "endsWith d ''*/''"
    and U: "U = [] \<or> last U = NL"
    and old: "docBefore (U @ T)"
  shows "docBefore (U @ d @ [NL] @ T)"
proof -
  from wf obtain d1 d2 where d1: "d = d1 @ ''*/''" and d2: "d = ''/**'' @ d2"
    by (auto simp: startsWith_def endsWith_def prefix_def suffix_def)
  have "U @ d @ [NL] @ T = U @ ''/**'' @ (d2 @ [NL] @ T)" by (simp add: d2)
  then have opener: "sublist ''/**'' (U @ d @ [NL] @ T)" unfolding sublist_def by blast
  from old obtain Y W where YW: "U @ T = Y @ ''*/'' @ W" and W: "\<forall>c\<in>set W. isWhiteSpace c"
    unfolding docBefore_def by blast
  from YW consider
      (inT) us where "U @ us = Y" "T = us @ ''*/'' @ W"
    | (inU) us where "U = Y @ us" "us @ T = ''*/'' @ W"
    by (auto simp: append_eq_append_conv2)
  then have "\<exists>Y' W'. U @ d @ [NL] @ T = Y' @ ''*/'' @ W' \<and> (\<forall>c\<in>set W'. isWhiteSpace c)"
  proof cases
    case inT
    then have "U @ d @ [NL] @ T = (U @ d @ [NL] @ us) @ ''*/'' @ W" by simp
    with W show ?thesis by blast
  next
    case inU
    show ?thesis
    proof (cases us)
      case Nil
      with inU have "U @ d @ [NL] @ T = (U @ d @ [NL]) @ ''*/'' @ W" by simp
      with W show ?thesis by blast
    next
      case (Cons c1 us1)
      show ?thesis
      proof (cases us1)
        case Nil
        with Cons inU have "U = Y @ ''*''" by simp
        with U show ?thesis by simp
      next
        case (Cons c2 us2)
        with \<open>us = c1 # us1\<close> inU have T: "W = us2 @ T" by simp
        with W have "\<forall>c\<in>set ([NL] @ T). isWhiteSpace c" by (simp add: ws_NL)
        moreover have "U @ d @ [NL] @ T = (U @ d1) @ ''*/'' @ ([NL] @ T)" by (simp add: d1)
        ultimately show ?thesis by blast
      qed
    qed
  qed
  with opener show ?thesis unfolding docBefore_def by blast
qed

lemma insert_settles:
  assumes nl: "NL \<notin> set pat" and U: "U = [] \<or> last U = NL" and nd: "\<not> sublist pat d"
    and wf: "startsWith d ''/**''" "endsWith d ''*/''"
    and pre: "settledSig (U @ V) pat \<or>
              (\<exists>i. indexOf (U @ V) pat = Some i \<and> afterLastNewline (take i (U @ V)) = length U)"
  shows "settledSig (U @ d @ [NL] @ V) pat"
proof (cases "indexOf (U @ V) pat")
  case None
  from indexOf_insert_None [OF nl U nd None] show ?thesis
    by (simp add: settledSig_def)
next
  case (Some i)
  note new = indexOf_insert_Some [OF nl U nd Some]
  show ?thesis
  proof (cases "i < length U")
    case True
    have l: "afterLastNewline (take i U) \<le> i"
      using afterLastNewline_take(3) [of "take i U"] True by simp
    from pre Some True l have "docBefore (take (afterLastNewline (take i U)) U)"
      by (auto simp: settledSig_def)
    with new True l show ?thesis
      by (simp add: settledSig_def)
  next
    case False
    define Z where "Z = take (i - length U) V"
    define k where "k = afterLastNewline Z"
    have k: "k \<le> i - length U"
      using afterLastNewline_take(3) [of Z] by (simp add: k_def Z_def)
    have old_take: "take i (U @ V) = U @ Z"
      using False by (simp add: Z_def)
    have new_take: "take (i + length d + 1) (U @ d @ [NL] @ V) = (U @ d @ [NL]) @ Z"
      using False by (simp add: Z_def Suc_diff_le)
    have old_l: "afterLastNewline (take i (U @ V)) = length U + k"
      unfolding old_take k_def by (rule afterLastNewline_append [OF U])
    have "U @ d @ [NL] = [] \<or> last (U @ d @ [NL]) = NL" by simp
    then have new_l: "afterLastNewline (take (i + length d + 1) (U @ d @ [NL] @ V))
                        = length (U @ d @ [NL]) + k"
      unfolding new_take k_def by (rule afterLastNewline_append)
    have old_b: "take (length U + k) (U @ V) = U @ take k V" by simp
    have new_b: "take (length (U @ d @ [NL]) + k) (U @ d @ [NL] @ V) = U @ d @ [NL] @ take k V"
      by simp
    have "docBefore (U @ d @ [NL] @ take k V)"
    proof (cases "k = 0")
      case True
      then show ?thesis using docBefore_insert_end [OF wf, of U] by simp
    next
      case nz: False
      with pre Some old_l have "docBefore (take (length U + k) (U @ V))"
        by (auto simp: settledSig_def)
      then have "docBefore (U @ take k V)" by (simp only: old_b)
      then show ?thesis by (rule docBefore_insert_mid [OF wf U])
    qed
    then have "docBefore (take (length (U @ d @ [NL]) + k) (U @ d @ [NL] @ V))"
      by (simp only: new_b)
    with new False new_l show ?thesis
      by (simp add: settledSig_def)
  qed
qed


section \<open>Properties of the patcher\<close>

lemma findExistingDocString_take:
  "take pos t1 = take pos t2 \<Longrightarrow> findExistingDocString t1 pos = findExistingDocString t2 pos"
  by (simp add: findExistingDocString_def substring_0)





lemma processComponent_counts:
  "st_success (processComponent opts ds orig st c) + st_failed (processComponent opts ds orig st c)
     + st_skipped (processComponent opts ds orig st c)
   = Suc (st_success st + st_failed st + st_skipped st)"
  by (simp add: processComponent_def Let_def split: option.splits)

lemma processComponent_mono:
  "st_success st \<le> st_success (processComponent opts ds orig st c) \<and>
   st_failed st \<le> st_failed (processComponent opts ds orig st c) \<and>
   st_skipped st \<le> st_skipped (processComponent opts ds orig st c)"
  by (simp add: processComponent_def Let_def split: option.splits)

lemma foldl_processComponent_counts:
  "st_success (foldl (processComponent opts ds orig) st cs)
     + st_failed (foldl (processComponent opts ds orig) st cs)
     + st_skipped (foldl (processComponent opts ds orig) st cs)
   = st_success st + st_failed st + st_skipped st + length cs"
proof (induction cs arbitrary: st)
  case Nil
  then show ?case by simp
next
  case (Cons c cs)
  show ?case
    using Cons.IH [of "processComponent opts ds orig st c"]
          processComponent_counts [of opts ds orig st c]
    by simp
qed

lemma processComponents_counts:
  "st_success (processComponents opts ds orig cs) + st_failed (processComponents opts ds orig cs)
     + st_skipped (processComponents opts ds orig cs) = length cs"
  by (simp add: processComponents_def foldl_processComponent_counts sortedComponents_def)

lemma relocation_failure:
  "usableDocString ds c = Some doc \<Longrightarrow> findComponentPosition (content st) c = None \<Longrightarrow>
   processComponent opts ds orig st c = st\<lparr>st_failed := st_failed st + 1\<rparr>"
  by (simp add: processComponent_def Let_def)

lemma signature_no_NL: "NL \<notin> set (getComponentSignature c)"
proof -
  obtain W1 W2 where "takeWhile (\<lambda>x. x \<noteq> NL) (code c) =
      W1 @ trim (takeWhile (\<lambda>x. x \<noteq> NL) (code c)) @ W2"
    using trim_decomp by blast
  then have "set (trim (takeWhile (\<lambda>x. x \<noteq> NL) (code c)))
               \<subseteq> set (takeWhile (\<lambda>x. x \<noteq> NL) (code c))"
    by (metis Un_upper1 Un_upper2 set_append subset_trans)
  moreover have "NL \<notin> set (takeWhile (\<lambda>x. x \<noteq> NL) (code c))"
    by (auto dest: set_takeWhileD)
  ultimately show ?thesis
    by (auto simp: getComponentSignature_def hd_split)
qed

lemma findComponentPosition_eq:
  "findComponentPosition b c =
     (case indexOf b (getComponentSignature c) of
        None \<Rightarrow> None
      | Some i \<Rightarrow> Some \<lparr>start = afterLastNewline (take i b), signatureStart = i,
                        signatureEnd = i + length (getComponentSignature c)\<rparr>)"
  by (simp add: findComponentPosition_def Let_def substring_0 split: option.splits)

lemma line_start_fixed:
  "afterLastNewline (take (afterLastNewline (take i b)) b) = afterLastNewline (take i b)"
proof -
  have "afterLastNewline (take i b) \<le> i"
    using afterLastNewline_take(3) [of "take i b"] by simp
  then have "take (afterLastNewline (take i b)) b
               = take (afterLastNewline (take i b)) (take i b)"
    by (simp add: min_def)
  then show ?thesis
    by (simp only: afterLastNewline_take(2))
qed

lemma line_start_NL:
  "take (afterLastNewline (take i b)) b = [] \<or> last (take (afterLastNewline (take i b)) b) = NL"
proof -
  have "afterLastNewline (take i b) \<le> i"
    using afterLastNewline_take(3) [of "take i b"] by simp
  then have "take (afterLastNewline (take i b)) b
               = take (afterLastNewline (take i b)) (take i b)"
    by (simp add: min_def)
  then show ?thesis
    using afterLastNewline_take(1) [of "take i b"] by simp
qed

lemma processComponent_noupdate:
  assumes "\<not> updateExisting opts"
  shows "processComponent opts ds orig st c =
     (case usableDocString ds c of
        None \<Rightarrow> st\<lparr>st_skipped := st_skipped st + 1\<rparr>
      | Some d \<Rightarrow>
          (case indexOf (content st) (getComponentSignature c) of
             None \<Rightarrow> st\<lparr>st_failed := st_failed st + 1\<rparr>
           | Some i \<Rightarrow>
               if docBefore (take (afterLastNewline (take i (content st))) (content st))
               then st\<lparr>st_skipped := st_skipped st + 1\<rparr>
               else st\<lparr>content :=
                          take (afterLastNewline (take i (content st))) (content st) @ d @ [NL] @
                          drop (afterLastNewline (take i (content st))) (content st),
                        st_modified := True, st_success := st_success st + 1\<rparr>))"
proof (cases "usableDocString ds c")
  case None
  then show ?thesis by (simp add: processComponent_def)
next
  case (Some d)
  show ?thesis
  proof (cases "indexOf (content st) (getComponentSignature c)")
    case None
    with Some show ?thesis
      by (simp add: processComponent_def findComponentPosition_eq)
  next
    case i: (Some i)
    show ?thesis
    proof (cases "findExistingDocString (content st) (afterLastNewline (take i (content st)))")
      case None
      then have "\<not> docBefore (take (afterLastNewline (take i (content st))) (content st))"
        by (simp add: findExistingDocString_None_iff)
      with Some i None show ?thesis
        by (simp add: processComponent_def findComponentPosition_eq Let_def substring_0
                      substringFrom_def line_start_fixed)
    next
      case (Some e)
      then have "docBefore (take (afterLastNewline (take i (content st))) (content st))"
        using findExistingDocString_None_iff
                [of "content st" "afterLastNewline (take i (content st))"]
        by simp
      with \<open>usableDocString ds c = Some d\<close> i Some assms show ?thesis
        by (simp add: processComponent_def findComponentPosition_eq Let_def)
    qed
  qed
qed

lemma step_preserves:
  assumes upd: "\<not> updateExisting opts"
    and nl: "NL \<notin> set pat"
    and good: "\<forall>d. usableDocString ds c = Some d \<longrightarrow>
                 startsWith d ''/**'' \<and> endsWith d ''*/'' \<and> \<not> sublist pat d"
    and old: "settledSig (content st) pat"
  shows "settledSig (content (processComponent opts ds orig st c)) pat"
proof (cases "usableDocString ds c")
  case None
  with old show ?thesis by (simp add: processComponent_noupdate [OF upd])
next
  case (Some d)
  with good have wf: "startsWith d ''/**''" "endsWith d ''*/''" and nd: "\<not> sublist pat d"
    by simp_all
  show ?thesis
  proof (cases "indexOf (content st) (getComponentSignature c)")
    case None
    with Some old show ?thesis by (simp add: processComponent_noupdate [OF upd])
  next
    case i: (Some i)
    define l where "l = afterLastNewline (take i (content st))"
    show ?thesis
    proof (cases "docBefore (take l (content st))")
      case True
      with Some i old show ?thesis
        by (simp add: processComponent_noupdate [OF upd] l_def)
    next
      case False
      have U: "take l (content st) = [] \<or> last (take l (content st)) = NL"
        unfolding l_def by (rule line_start_NL)
      have "settledSig (take l (content st) @ drop l (content st)) pat"
        using old by simp
      then have "settledSig (take l (content st) @ d @ [NL] @ drop l (content st)) pat"
        using insert_settles [OF nl U nd wf] by blast
      with Some i False show ?thesis
        by (simp add: processComponent_noupdate [OF upd] l_def)
    qed
  qed
qed

lemma step_establishes:
  assumes upd: "\<not> updateExisting opts"
    and doc: "usableDocString ds c = Some d"
    and wf: "startsWith d ''/**''" "endsWith d ''*/''"
    and nd: "\<not> sublist (getComponentSignature c) d"
  shows "settledSig (content (processComponent opts ds orig st c)) (getComponentSignature c)"
proof (cases "indexOf (content st) (getComponentSignature c)")
  case None
  with doc show ?thesis
    by (simp add: processComponent_noupdate [OF upd] settledSig_def)
next
  case i: (Some i)
  define l where "l = afterLastNewline (take i (content st))"
  show ?thesis
  proof (cases "docBefore (take l (content st))")
    case True
    with doc i show ?thesis
      by (simp add: processComponent_noupdate [OF upd] l_def settledSig_def)
  next
    case False
    have U: "take l (content st) = [] \<or> last (take l (content st)) = NL"
      unfolding l_def by (rule line_start_NL)
    have "l \<le> length (content st)"
      using afterLastNewline_take(3) [of "take i (content st)"] by (simp add: l_def)
    then have len: "length (take l (content st)) = l" by simp
    have "indexOf (take l (content st) @ drop l (content st)) (getComponentSignature c) = Some i \<and>
          afterLastNewline (take i (take l (content st) @ drop l (content st)))
            = length (take l (content st))"
      using i len by (simp only: append_take_drop_id l_def)
    then have "settledSig (take l (content st) @ d @ [NL] @ drop l (content st))
                 (getComponentSignature c)"
      using insert_settles [OF signature_no_NL U nd wf] by blast
    with doc i False show ?thesis
      by (simp add: processComponent_noupdate [OF upd] l_def)
  qed
qed

lemma first_pass_settles:
  assumes upd: "\<not> updateExisting opts"
    and good: "\<forall>c\<in>set cs. \<forall>d. usableDocString ds c = Some d \<longrightarrow>
                 startsWith d ''/**'' \<and> endsWith d ''*/'' \<and>
                 (\<forall>c'\<in>set cs. usableDocString ds c' \<noteq> None \<longrightarrow>
                    \<not> sublist (getComponentSignature c') d)"
    and sub: "set xs \<subseteq> set cs"
  shows "\<forall>c\<in>set xs. usableDocString ds c \<noteq> None \<longrightarrow>
           settledSig (content (foldl (processComponent opts ds orig) st xs))
             (getComponentSignature c)"
  using sub
proof (induction xs rule: rev_induct)
  case Nil
  then show ?case by simp
next
  case (snoc x xs)
  define mid where "mid = foldl (processComponent opts ds orig) st xs"
  have x: "x \<in> set cs" using snoc.prems by simp
  have IH: "\<forall>c\<in>set xs. usableDocString ds c \<noteq> None \<longrightarrow>
              settledSig (content mid) (getComponentSignature c)"
    unfolding mid_def using snoc by simp
  have "settledSig (content (processComponent opts ds orig mid x)) (getComponentSignature c)"
    if c: "c \<in> set (xs @ [x])" and u: "usableDocString ds c \<noteq> None" for c
  proof (cases "c = x")
    case True
    from u obtain d where d: "usableDocString ds x = Some d" using True by auto
    with good x have "startsWith d ''/**''" "endsWith d ''*/''"
      "\<not> sublist (getComponentSignature x) d"
      by auto
    from step_establishes [OF upd d this] True show ?thesis by simp
  next
    case False
    with c have cxs: "c \<in> set xs" by simp
    then have ccs: "c \<in> set cs" using snoc.prems by auto
    have "\<forall>d. usableDocString ds x = Some d \<longrightarrow>
            startsWith d ''/**'' \<and> endsWith d ''*/'' \<and> \<not> sublist (getComponentSignature c) d"
      using good x ccs u by blast
    from step_preserves [OF upd signature_no_NL this] IH cxs u show ?thesis by blast
  qed
  then show ?case by (simp add: mid_def)
qed

lemma settled_noop:
  assumes upd: "\<not> updateExisting opts"
    and s: "usableDocString ds c \<noteq> None \<longrightarrow> settledSig (content st) (getComponentSignature c)"
  shows "content (processComponent opts ds orig st c) = content st \<and>
         st_success (processComponent opts ds orig st c) = st_success st \<and>
         st_modified (processComponent opts ds orig st c) = st_modified st"
  using s by (auto simp: processComponent_noupdate [OF upd] settledSig_def split: option.splits)

lemma foldl_noop:
  assumes upd: "\<not> updateExisting opts"
    and s: "\<forall>c\<in>set xs. usableDocString ds c \<noteq> None \<longrightarrow>
              settledSig (content st) (getComponentSignature c)"
  shows "content (foldl (processComponent opts ds orig) st xs) = content st \<and>
         st_success (foldl (processComponent opts ds orig) st xs) = st_success st \<and>
         st_modified (foldl (processComponent opts ds orig) st xs) = st_modified st"
  using s
proof (induction xs arbitrary: st)
  case Nil
  then show ?case by simp
next
  case (Cons x xs)
  from Cons.prems have "usableDocString ds x \<noteq> None \<longrightarrow>
      settledSig (content st) (getComponentSignature x)" by simp
  note one = settled_noop [OF upd this, of orig]
  with Cons.prems have "\<forall>c\<in>set xs. usableDocString ds c \<noteq> None \<longrightarrow>
      settledSig (content (processComponent opts ds orig st x)) (getComponentSignature c)"
    by simp
  from Cons.IH [OF this] one show ?case by simp
qed

lemma step_modified:
  "st_modified st \<Longrightarrow> st_modified (processComponent opts ds orig st c)"
  by (simp add: processComponent_def Let_def split: option.splits)

lemma step_unmodified:
  "\<not> st_modified (processComponent opts ds orig st c) \<Longrightarrow>
   content (processComponent opts ds orig st c) = content st"
  by (simp add: processComponent_def Let_def split: option.splits if_splits)

lemma foldl_modified:
  "st_modified st \<Longrightarrow> st_modified (foldl (processComponent opts ds orig) st xs)"
  by (induction xs arbitrary: st) (simp_all add: step_modified)

lemma foldl_unmodified:
  "\<not> st_modified (foldl (processComponent opts ds orig) st xs) \<Longrightarrow>
   content (foldl (processComponent opts ds orig) st xs) = content st"
proof (induction xs arbitrary: st)
  case Nil
  then show ?case by simp
next
  case (Cons x xs)
  then have "content (foldl (processComponent opts ds orig) (processComponent opts ds orig st x) xs)
               = content (processComponent opts ds orig st x)"
    by simp
  moreover have "\<not> st_modified (processComponent opts ds orig st x)"
    using Cons.prems foldl_modified by fastforce
  ultimately show ?case by (simp add: step_unmodified)
qed

lemma first_run_file:
  assumes "\<not> isDryRun opts" and "files fs path = Some text" and "writable fs path"
  shows "files (snd (updateFileWithDocStrings fs path cs ds opts)) path
           = Some (content (processComponents opts ds text cs))"
proof (cases "st_modified (processComponents opts ds text cs)")
  case True
  with assms show ?thesis
    by (simp add: updateFileWithDocStrings_def readFile_def writeFile_def Let_def)
next
  case False
  then have "content (processComponents opts ds text cs) = text"
    unfolding processComponents_def by (simp add: foldl_unmodified)
  with False assms show ?thesis
    by (simp add: updateFileWithDocStrings_def readFile_def Let_def)
qed





text \<open>
  C1, left out of the amended statement: \<open>findExistingDocString\<close> takes the last
  \<open>/**\<close> before the close marker as the start of the block, also when that opener
  belongs to a comment that was closed long before. Under a licence header the plain
  comment before Foo is taken for its documentation: the locator reports no existing
  comment for Foo or Bar and each first line is unique, yet with update-existing off Foo
  is skipped, and with update-existing on the span \<open>[0, 42)\<close>, from the licence header
  through the import to the plain comment, is replaced by the documentation of Foo.
\<close>

lemma plain_comment_taken_for_documentation:
  "existingComment licence_foo = None \<and> existingComment licence_bar = None \<and>
   indexOf licence_text (getComponentSignature licence_foo) = Some (startPos licence_foo) \<and>
   indexOf licence_text (getComponentSignature licence_bar) = Some (startPos licence_bar) \<and>
   map_option (\<lambda>e. (ex_start e, ex_end e)) (findExistingDocString licence_text 43) = Some (0, 42) \<and>
   ex_run licence_text [licence_foo, licence_bar] licence_docs False False =
     (\<lparr>success = 1, failed = 0, skipped = Some 1, modified = True\<rparr>,
      Some ''/** MIT */\<newline>import x from './x';\<newline>/* main */\<newline>export const Foo = () => 1;\<newline>/** Bar */\<newline>export const Bar = () => 2;\<newline>'') \<and>
   ex_run licence_text [licence_foo, licence_bar] licence_docs False True =
     (\<lparr>success = 2, failed = 0, skipped = Some 0, modified = True\<rparr>,
      Some ''/** Foo */\<newline>export const Foo = () => 1;\<newline>/** Bar */\<newline>export const Bar = () => 2;\<newline>'')"
  by code_simp

text \<open>
  C2, as stated: a second run with update-existing off never changes the text. The
  declaration is searched for by the first occurrence of its first line. A
  documentation text that quotes this line (here in a usage note) puts the first
  occurrence inside the inserted block, on a line that no documentation block
  precedes, and the second run inserts the documentation again, inside the first copy.
  It does so for the component as located in the new text and for the old record.
\<close>

theorem second_run_inserts_again:
  "quoted_doc = ''/** *\<newline> * Use: const Foo = () => 1;\<newline> \<newline> */'' \<and>
   code quoted_foo1 = code quoted_foo \<and>
   ex_run quoted_text [quoted_foo] [uniqueId quoted_foo \<mapsto> ex_doc quoted_doc] False False =
     (\<lparr>success = 1, failed = 0, skipped = Some 0, modified = True\<rparr>, Some quoted_text1) \<and>
   ex_run quoted_text1 [quoted_foo1] [uniqueId quoted_foo1 \<mapsto> ex_doc quoted_doc] False False =
     (\<lparr>success = 1, failed = 0, skipped = Some 0, modified = True\<rparr>, Some quoted_text2) \<and>
   ex_run quoted_text1 [quoted_foo] [uniqueId quoted_foo \<mapsto> ex_doc quoted_doc] False False =
     (\<lparr>success = 1, failed = 0, skipped = Some 0, modified = True\<rparr>, Some quoted_text2) \<and>
   quoted_text2 \<noteq> quoted_text1"
  by code_simp

text \<open>
  C2, amended: let every usable documentation text of the first run start with \<open>/**\<close>
  and end with \<open>*/\<close> (as every result of \<open>sanitizeDocString\<close> does) and contain the
  first line of no declaration that has a usable result. Then, for every file text and
  declaration list, a second run with update-existing off over declarations that have
  the same first lines (the same records, or the declarations located again in the new
  text, with any documentation results) writes nothing and leaves the file as the
  first run left it: no declaration is a success, each is skipped, or failed when its
  first line is not in the text.
\<close>

theorem second_run_changes_nothing:
  assumes real: "\<not> isDryRun opts" and upd: "\<not> updateExisting opts"
    and io: "files fs path = Some text" "writable fs path"
    and docs: "\<forall>c\<in>set cs. \<forall>d. usableDocString ds c = Some d \<longrightarrow>
                 startsWith d ''/**'' \<and> endsWith d ''*/'' \<and>
                 (\<forall>c'\<in>set cs. usableDocString ds c' \<noteq> None \<longrightarrow>
                    indexOf d (getComponentSignature c') = None)"
    and relocated: "\<forall>c2\<in>set cs2. usableDocString ds2 c2 \<noteq> None \<longrightarrow>
                 (\<exists>c\<in>set cs. usableDocString ds c \<noteq> None \<and>
                    getComponentSignature c2 = getComponentSignature c)"
  shows "\<exists>f k. updateFileWithDocStrings (snd (updateFileWithDocStrings fs path cs ds opts))
                  path cs2 ds2 opts =
                (\<lparr>success = 0, failed = f, skipped = Some k, modified = False\<rparr>,
                 snd (updateFileWithDocStrings fs path cs ds opts)) \<and>
               f + k = length cs2"
proof -
  define fs1 where "fs1 = snd (updateFileWithDocStrings fs path cs ds opts)"
  define text1 where "text1 = content (processComponents opts ds text cs)"
  define st2 where "st2 = processComponents opts ds2 text1 cs2"
  have file1: "files fs1 path = Some text1"
    unfolding fs1_def text1_def by (rule first_run_file [OF real io])
  have good: "\<forall>c\<in>set cs. \<forall>d. usableDocString ds c = Some d \<longrightarrow>
                 startsWith d ''/**'' \<and> endsWith d ''*/'' \<and>
                 (\<forall>c'\<in>set cs. usableDocString ds c' \<noteq> None \<longrightarrow>
                    \<not> sublist (getComponentSignature c') d)"
    using docs by (simp add: indexOf_None_sublist)
  have "set (sortedComponents cs) \<subseteq> set cs"
    by (simp add: sortedComponents_def)
  from first_pass_settles [OF upd good this]
  have settled: "\<forall>c\<in>set cs. usableDocString ds c \<noteq> None \<longrightarrow>
                   settledSig text1 (getComponentSignature c)"
    by (simp add: text1_def processComponents_def sortedComponents_def)
  have "\<forall>c2\<in>set (sortedComponents cs2). usableDocString ds2 c2 \<noteq> None \<longrightarrow>
          settledSig text1 (getComponentSignature c2)"
    using relocated settled by (fastforce simp: sortedComponents_def)
  then have "\<forall>c2\<in>set (sortedComponents cs2). usableDocString ds2 c2 \<noteq> None \<longrightarrow>
          settledSig (content \<lparr>content = text1, st_modified = False, st_success = 0,
                                st_failed = 0, st_skipped = 0\<rparr>) (getComponentSignature c2)"
    by simp
  from foldl_noop [OF upd this]
  have noop: "content st2 = text1" "st_success st2 = 0" "\<not> st_modified st2"
    by (simp_all add: st2_def processComponents_def)
  have count: "st_failed st2 + st_skipped st2 = length cs2"
    using processComponents_counts [of opts ds2 text1 cs2] noop(2) by (simp add: st2_def)
  have "updateFileWithDocStrings fs1 path cs2 ds2 opts =
          (\<lparr>success = 0, failed = st_failed st2, skipped = Some (st_skipped st2),
            modified = False\<rparr>, fs1)"
    using real file1 noop
    by (simp add: updateFileWithDocStrings_def readFile_def Let_def st2_def [symmetric])
  with count show ?thesis
    unfolding fs1_def by blast
qed

theorem second_run_changes_nothing_witness:
  "usableDocString two_docs two_foo = Some ''/** Foo */'' \<and>
   usableDocString two_docs two_bar = Some ''/** Bar */'' \<and>
   indexOf ''/** Foo */'' (getComponentSignature two_foo) = None \<and>
   indexOf ''/** Foo */'' (getComponentSignature two_bar) = None \<and>
   indexOf ''/** Bar */'' (getComponentSignature two_foo) = None \<and>
   indexOf ''/** Bar */'' (getComponentSignature two_bar) = None \<and>
   getComponentSignature moved_foo = getComponentSignature two_foo \<and>
   getComponentSignature moved_bar = getComponentSignature two_bar \<and>
   files (snd (updateFileWithDocStrings (ex_fs two_text) ex_path [two_foo, two_bar] two_docs
                 \<lparr>isDryRun = False, updateExisting = False\<rparr>)) ex_path = Some moved_text \<and>
   updateFileWithDocStrings
       (snd (updateFileWithDocStrings (ex_fs two_text) ex_path [two_foo, two_bar] two_docs
               \<lparr>isDryRun = False, updateExisting = False\<rparr>))
       ex_path [moved_foo, moved_bar] moved_docs \<lparr>isDryRun = False, updateExisting = False\<rparr> =
     (\<lparr>success = 0, failed = 0, skipped = Some 2, modified = False\<rparr>,
      snd (updateFileWithDocStrings (ex_fs two_text) ex_path [two_foo, two_bar] two_docs
             \<lparr>isDryRun = False, updateExisting = False\<rparr>))"
proof -
  define opts where "opts = \<lparr>isDryRun = False, updateExisting = False\<rparr>"
  define fs1 where
    "fs1 = snd (updateFileWithDocStrings (ex_fs two_text) ex_path [two_foo, two_bar] two_docs opts)"
  have real: "\<not> isDryRun opts" and upd: "\<not> updateExisting opts"
    by (simp_all add: opts_def)
  have io: "files (ex_fs two_text) ex_path = Some two_text" "writable (ex_fs two_text) ex_path"
    by (simp_all add: ex_fs_def)
  have u: "usableDocString two_docs two_foo = Some ''/** Foo */''"
          "usableDocString two_docs two_bar = Some ''/** Bar */''"
    by code_simp+
  have u2: "usableDocString moved_docs moved_foo = Some ''/** Foo */''"
           "usableDocString moved_docs moved_bar = Some ''/** Bar */''"
    by code_simp+
  have wf: "startsWith ''/** Foo */'' ''/**''" "endsWith ''/** Foo */'' ''*/''"
           "startsWith ''/** Bar */'' ''/**''" "endsWith ''/** Bar */'' ''*/''"
    by code_simp+
  have n: "indexOf ''/** Foo */'' (getComponentSignature two_foo) = None"
          "indexOf ''/** Foo */'' (getComponentSignature two_bar) = None"
          "indexOf ''/** Bar */'' (getComponentSignature two_foo) = None"
          "indexOf ''/** Bar */'' (getComponentSignature two_bar) = None"
    by code_simp+
  have sg: "getComponentSignature moved_foo = getComponentSignature two_foo"
           "getComponentSignature moved_bar = getComponentSignature two_bar"
    by code_simp+
  have docs: "\<forall>c\<in>set [two_foo, two_bar]. \<forall>d. usableDocString two_docs c = Some d \<longrightarrow>
                startsWith d ''/**'' \<and> endsWith d ''*/'' \<and>
                (\<forall>c'\<in>set [two_foo, two_bar]. usableDocString two_docs c' \<noteq> None \<longrightarrow>
                   indexOf d (getComponentSignature c') = None)"
    using u wf n by simp
  have relocated: "\<forall>c2\<in>set [moved_foo, moved_bar]. usableDocString moved_docs c2 \<noteq> None \<longrightarrow>
                (\<exists>c\<in>set [two_foo, two_bar]. usableDocString two_docs c \<noteq> None \<and>
                   getComponentSignature c2 = getComponentSignature c)"
    using u sg by simp
  have file1: "files fs1 ex_path = Some moved_text"
    unfolding fs1_def opts_def by code_simp
  have res: "fst (updateFileWithDocStrings fs1 ex_path [moved_foo, moved_bar] moved_docs opts) =
               \<lparr>success = 0, failed = 0, skipped = Some 2, modified = False\<rparr>"
    unfolding fs1_def opts_def by code_simp
  from second_run_changes_nothing [OF real upd io docs relocated]
  have "snd (updateFileWithDocStrings fs1 ex_path [moved_foo, moved_bar] moved_docs opts) = fs1"
    unfolding fs1_def by force
  with res have "updateFileWithDocStrings fs1 ex_path [moved_foo, moved_bar] moved_docs opts =
      (\<lparr>success = 0, failed = 0, skipped = Some 2, modified = False\<rparr>, fs1)"
    by (metis prod.collapse)
  with u n sg file1 show ?thesis
    unfolding fs1_def opts_def by simp
qed

text \<open>
  C3: the claim is that, in update mode, exactly the span of the existing
  documentation block is replaced. \<open>findExistingDocString\<close> takes its indices in the
  trimmed text before the declaration and the patcher applies them to the untrimmed
  buffer. In a file that starts with an empty line the block \<open>/** old */\<close> is at
  \<open>[1, 11)\<close>, the span returned is \<open>[0, 10)\<close>, and the rewritten file has lost its first
  line break and kept the last character of the old block: \<open>/** new *//\<close>.
\<close>

theorem update_existing_shifted_span:
  "findExistingDocString leading_text 12 =
     Some \<lparr>ex_start = 0, ex_end = 10, ex_content = ''/** old */''\<rparr> \<and>
   substring leading_text 1 11 = ''/** old */'' \<and>
   ex_run leading_text [leading_foo] [uniqueId leading_foo \<mapsto> ex_doc ''/** new */''] False True =
     (\<lparr>success = 1, failed = 0, skipped = Some 0, modified = True\<rparr>,
      Some ''/** new *//\<newline>const Foo = () => 1;\<newline>'')"
  by code_simp

text \<open>
  C8, as stated: a dry run gives the same counts as a real run. For a component that
  already has a documentation block, with update-existing off, the real run counts it
  as skipped and the dry run as a success.
\<close>

theorem dry_run_counts_differ:
  "ex_run documented_text [documented_foo]
     [uniqueId documented_foo \<mapsto> ex_doc ''/** new */''] True False =
     (\<lparr>success = 1, failed = 0, skipped = None, modified = False\<rparr>, Some documented_text) \<and>
   ex_run documented_text [documented_foo]
     [uniqueId documented_foo \<mapsto> ex_doc ''/** new */''] False False =
     (\<lparr>success = 0, failed = 0, skipped = Some 1, modified = False\<rparr>, Some documented_text)"
  by code_simp

text \<open>
  C8, amended: in dry-run mode the per-file update does no work on the file. It returns
  at once with every declaration counted as a success, no failure, no skipped count and
  \<open>modified = false\<close>, and the file system is as it was: nothing is read or written.
\<close>

theorem dry_run_result:
  "isDryRun opts \<Longrightarrow>
   updateFileWithDocStrings fs path cs ds opts =
     (\<lparr>success = length cs, failed = 0, skipped = None, modified = False\<rparr>, fs)"
  by (simp add: updateFileWithDocStrings_def)

theorem dry_run_result_witness:
  "isDryRun \<lparr>isDryRun = True, updateExisting = False\<rparr> \<and>
   updateFileWithDocStrings (ex_fs documented_text) ex_path [documented_foo] Map.empty
       \<lparr>isDryRun = True, updateExisting = False\<rparr> =
     (\<lparr>success = 1, failed = 0, skipped = None, modified = False\<rparr>, ex_fs documented_text)"
proof -
  have h: "isDryRun \<lparr>isDryRun = True, updateExisting = False\<rparr>"
    by simp
  show ?thesis
    using h dry_run_result [OF h, of "ex_fs documented_text" ex_path "[documented_foo]" Map.empty]
    by simp
qed

text \<open>
  C10, as stated: a declaration whose signature cannot be relocated is counted failed.
  The loop tests the documentation result first: a declaration without a usable result
  is counted skipped and its signature is never searched for.
\<close>

theorem unlocatable_without_doc_is_skipped:
  "findComponentPosition other_text documented_foo = None \<and>
   ex_run other_text [documented_foo] Map.empty False False =
     (\<lparr>success = 0, failed = 0, skipped = Some 1, modified = False\<rparr>, Some other_text)"
  by code_simp

text \<open>
  C10, amended: in a per-file update that is not a dry run, success + failed + skipped
  is the number of declarations passed in, with or without a file-level I/O error;
  every iteration of the loop adds one to exactly one of the three counters; and a
  declaration that has a usable documentation result and whose signature is not found
  in the buffer is counted failed, with the buffer and the other variables unchanged.
\<close>

theorem update_counts_partition:
  assumes "\<not> isDryRun opts"
  shows "(\<exists>k. skipped (fst (updateFileWithDocStrings fs path cs ds opts)) = Some k \<and>
            success (fst (updateFileWithDocStrings fs path cs ds opts))
              + failed (fst (updateFileWithDocStrings fs path cs ds opts)) + k = length cs) \<and>
         (\<forall>st c. st_success (processComponent opts ds orig st c)
                    + st_failed (processComponent opts ds orig st c)
                    + st_skipped (processComponent opts ds orig st c)
                  = Suc (st_success st + st_failed st + st_skipped st) \<and>
                  st_success st \<le> st_success (processComponent opts ds orig st c) \<and>
                  st_failed st \<le> st_failed (processComponent opts ds orig st c) \<and>
                  st_skipped st \<le> st_skipped (processComponent opts ds orig st c)) \<and>
         (\<forall>st c doc. usableDocString ds c = Some doc \<longrightarrow>
                      findComponentPosition (content st) c = None \<longrightarrow>
                      processComponent opts ds orig st c = st\<lparr>st_failed := st_failed st + 1\<rparr>)"
proof -
  have "\<exists>k. skipped (fst (updateFileWithDocStrings fs path cs ds opts)) = Some k \<and>
            success (fst (updateFileWithDocStrings fs path cs ds opts))
              + failed (fst (updateFileWithDocStrings fs path cs ds opts)) + k = length cs"
    using assms processComponents_counts [of opts ds _ cs]
    by (auto simp: updateFileWithDocStrings_def Let_def split: sum.splits)
  then show ?thesis
    using processComponent_counts processComponent_mono relocation_failure by blast
qed

theorem update_counts_partition_witness:
  "\<not> isDryRun \<lparr>isDryRun = False, updateExisting = False\<rparr> \<and>
   usableDocString [uniqueId documented_foo \<mapsto> ex_doc ''/** new */''] documented_foo
     = Some ''/** new */'' \<and>
   findComponentPosition other_text documented_foo = None \<and>
   ex_run other_text [documented_foo] [uniqueId documented_foo \<mapsto> ex_doc ''/** new */'']
       False False =
     (\<lparr>success = 0, failed = 1, skipped = Some 0, modified = False\<rparr>, Some other_text) \<and>
   (\<exists>k. skipped (fst (updateFileWithDocStrings (ex_fs other_text) ex_path [documented_foo]
                        [uniqueId documented_foo \<mapsto> ex_doc ''/** new */'']
                        \<lparr>isDryRun = False, updateExisting = False\<rparr>)) = Some k \<and>
        success (fst (updateFileWithDocStrings (ex_fs other_text) ex_path [documented_foo]
                        [uniqueId documented_foo \<mapsto> ex_doc ''/** new */'']
                        \<lparr>isDryRun = False, updateExisting = False\<rparr>))
          + failed (fst (updateFileWithDocStrings (ex_fs other_text) ex_path [documented_foo]
                        [uniqueId documented_foo \<mapsto> ex_doc ''/** new */'']
                        \<lparr>isDryRun = False, updateExisting = False\<rparr>)) + k
          = length [documented_foo])"
proof -
  have h: "\<not> isDryRun \<lparr>isDryRun = False, updateExisting = False\<rparr>"
    by simp
  have u: "usableDocString [uniqueId documented_foo \<mapsto> ex_doc ''/** new */''] documented_foo
             = Some ''/** new */''"
    by code_simp
  have f: "findComponentPosition other_text documented_foo = None"
    by code_simp
  have r: "ex_run other_text [documented_foo]
             [uniqueId documented_foo \<mapsto> ex_doc ''/** new */''] False False =
           (\<lparr>success = 0, failed = 1, skipped = Some 0, modified = False\<rparr>, Some other_text)"
    by code_simp
  show ?thesis
    using h u f r
      update_counts_partition [OF h, of "ex_fs other_text" ex_path "[documented_foo]"
        "[uniqueId documented_foo \<mapsto> ex_doc ''/** new */'']" other_text]
    by blast
qed


section \<open>Properties of the locator\<close>

lemma andThen_Inr_iff:
  "andThen r k = Inr cs \<longleftrightarrow> (\<exists>as bs. r = Inr as \<and> k = Inr bs \<and> cs = as @ bs)"
  by (auto simp: andThen_def split: sum.splits)

lemma traverse_pushed:
  "traverse add decl n = Inr cs \<Longrightarrow>
     \<forall>c\<in>set cs. \<exists>nm s e ty. c = add nm s e ty \<and> (ty = ''ClassComponent'' \<or> hasUpperInitial nm)"
  "traverseList add decl ns = Inr cs \<Longrightarrow>
     \<forall>c\<in>set cs. \<exists>nm s e ty. c = add nm s e ty \<and> (ty = ''ClassComponent'' \<or> hasUpperInitial nm)"
proof (induction add decl n and add decl ns arbitrary: cs and cs
       rule: traverse_traverseList.induct)
  case (6 add decl s e ident body)
  then show ?case
    by (fastforce simp: andThen_Inr_iff split: option.splits if_splits)
next
  case (8 add decl ident init)
  then show ?case
    by (fastforce simp: andThen_Inr_iff split: option.splits if_splits prod.splits)
next
  case (9 add decl s e ident superClass body)
  then show ?case
    by (fastforce simp: andThen_Inr_iff split: option.splits if_splits)
qed (fastforce simp: andThen_Inr_iff)+

lemma name_addComponent: "name (addComponent p t r nm s e ty) = nm"
  by (simp add: addComponent_def Let_def)

lemma ctype_addComponent: "ctype (addComponent p t r nm s e ty) = ty"
  by (simp add: addComponent_def Let_def)

lemma extract_parse_failure:
  "parse path text = Inl err \<Longrightarrow> extractComponentsFromFile parse path text rel = Inr []"
  by (simp add: extractComponentsFromFile_def)

text \<open>
  C5, as stated: the spans reported for one file are pairwise disjoint. The walk
  visits nested declarations as well: for a function component with an arrow component
  in its body the locator returns both, and the span \<open>[21, 43)\<close> of the inner one lies
  inside the span \<open>[0, 61)\<close> of the outer one.
\<close>

theorem nested_spans_reported:
  "extractComponentsFromFile (\<lambda>p t. Inr nested_ast) ex_path nested_text ''a.js'' =
     Inr [nested_outer, nested_inner] \<and>
   (startPos nested_outer, endPos nested_outer) = (0, 61) \<and>
   (startPos nested_inner, endPos nested_inner) = (21, 43) \<and>
   startPos nested_outer < startPos nested_inner \<and> endPos nested_inner < endPos nested_outer"
  by code_simp

text \<open>
  C5, amended: for every file that parses and whose walk completes, the declarations
  returned are sorted by span start ascending, and the patcher's re-sort holds the same
  declarations by span start descending. Nothing is promised about disjoint spans.
\<close>

theorem locator_sorted_patcher_resorts:
  assumes "extractComponentsFromFile parse path text rel = Inr cs"
  shows "sorted (map startPos cs) \<and>
         sorted_wrt (\<lambda>a b. startPos b \<le> startPos a) (sortedComponents cs) \<and>
         mset (sortedComponents cs) = mset cs"
proof -
  have "sorted (map startPos cs)"
    using assms by (auto simp: extractComponentsFromFile_def split: sum.splits)
  moreover have "sorted (map (\<lambda>c. - int (startPos c)) (sortedComponents cs))"
    by (simp add: sortedComponents_def)
  then have "sorted_wrt (\<lambda>a b. startPos b \<le> startPos a) (sortedComponents cs)"
    by (simp add: sorted_map)
  moreover have "mset (sortedComponents cs) = mset cs"
    by (simp add: sortedComponents_def)
  ultimately show ?thesis by simp
qed

theorem locator_sorted_patcher_resorts_witness:
  "extractComponentsFromFile (\<lambda>p t. Inr nested_ast) ex_path nested_text ''a.js'' =
     Inr [nested_outer, nested_inner] \<and>
   sorted (map startPos [nested_outer, nested_inner]) \<and>
   sorted_wrt (\<lambda>a b. startPos b \<le> startPos a) (sortedComponents [nested_outer, nested_inner]) \<and>
   mset (sortedComponents [nested_outer, nested_inner]) = mset [nested_outer, nested_inner]"
proof -
  have h: "extractComponentsFromFile (\<lambda>p t. Inr nested_ast) ex_path nested_text ''a.js'' =
             Inr [nested_outer, nested_inner]"
    by code_simp
  show ?thesis
    using h locator_sorted_patcher_resorts [OF h] by blast
qed

text \<open>
  C6, as stated: every declaration returned has a name that starts with an upper-case
  letter. The class visitor tests the superclass only: \<open>class foo extends Component\<close>
  is returned under the name \<open>foo\<close>.
\<close>

theorem lower_case_class_reported:
  "extractComponentsFromFile (\<lambda>p t. Inr lower_class_ast) ex_path lower_class_text ''a.js'' =
     Inr [lower_class_foo] \<and>
   name lower_class_foo = ''foo'' \<and> ctype lower_class_foo = ''ClassComponent'' \<and>
   \<not> hasUpperInitial (name lower_class_foo)"
  by code_simp

text \<open>
  C6, amended: every declaration returned by the function visitor or the declarator
  visitor (function, arrow, styled and HOC components) has a name whose first character
  is one of \<open>A\<close> to \<open>Z\<close>; a class declaration is selected by its superclass alone and
  may have any name.
\<close>

theorem non_class_names_upper_case:
  assumes "extractComponentsFromFile parse path text rel = Inr cs"
  shows "\<forall>c\<in>set cs. ctype c = ''ClassComponent'' \<or> hasUpperInitial (name c)"
proof (cases "parse path text")
  case (Inl e)
  with assms show ?thesis by (simp add: extractComponentsFromFile_def)
next
  case (Inr ast)
  with assms obtain ds where tr: "traverse (addComponent path text rel) None ast = Inr ds"
    and cs: "cs = sort_key startPos ds"
    by (auto simp: extractComponentsFromFile_def split: sum.splits)
  show ?thesis
  proof
    fix c assume "c \<in> set cs"
    then have "c \<in> set ds" using cs by simp
    with traverse_pushed(1) [OF tr] obtain nm s e ty where
      "c = addComponent path text rel nm s e ty" "ty = ''ClassComponent'' \<or> hasUpperInitial nm"
      by blast
    then show "ctype c = ''ClassComponent'' \<or> hasUpperInitial (name c)"
      by (auto simp: name_addComponent ctype_addComponent)
  qed
qed

theorem non_class_names_upper_case_witness:
  "extractComponentsFromFile (\<lambda>p t. Inr nested_ast) ex_path nested_text ''a.js'' =
     Inr [nested_outer, nested_inner] \<and>
   ctype nested_outer = ''FunctionComponent'' \<and> hasUpperInitial (name nested_outer) \<and>
   ctype nested_inner = ''ArrowFunctionComponent'' \<and> hasUpperInitial (name nested_inner)"
proof -
  have h: "extractComponentsFromFile (\<lambda>p t. Inr nested_ast) ex_path nested_text ''a.js'' =
             Inr [nested_outer, nested_inner]"
    by code_simp
  have t: "ctype nested_outer = ''FunctionComponent''"
          "ctype nested_inner = ''ArrowFunctionComponent''"
    by (simp_all add: nested_outer_def nested_inner_def ctype_addComponent)
  show ?thesis
    using h t non_class_names_upper_case [OF h] by simp
qed

text \<open>
  C7: the claim is that the locator never throws. A parse failure is caught, but the
  class visitor reads \<open>node.id.name\<close> with no test on \<open>node.id\<close> (the function visitor
  has one), and the walk is outside the \<open>try\<close> block: for a file with an anonymous
  default-exported class that extends \<open>Component\<close> the walk throws a \<open>TypeError\<close>, and
  the arrow component \<open>Foo\<close> of the same file is lost with it.
\<close>

theorem anonymous_class_throws:
  "extractComponentsFromFile (\<lambda>p t. Inr anon_class_ast) ex_path anon_class_text ''a.js'' =
     Inl TypeError"
  by code_simp

end
